theory Spec2Isabelle
  imports Main "HOL-Library.Word"
begin

section \<open>Run-time failures, returned errors and the big-integer primitive\<close>

text \<open>
  A Go run-time panic aborts the call; it is the \<open>Inl\<close> branch of every result below.
  \<open>NilDereference\<close>: a method of \<open>big.Int\<close> is applied to a nil pointer.
  \<open>IndexOutOfRange\<close>: a slice is read or written outside \<open>[0, len)\<close>.
  \<open>NegativeLen\<close>: \<open>make\<close> is called with a negative length.
  \<open>DivisionByZero\<close>: a \<open>big.Int\<close> division or modulus by zero.
  \<open>RandIntNonPositive\<close>: \<open>rand.Int\<close> is called with a bound \<open>\<le> 0\<close>.
\<close>

datatype panic = NilDereference | IndexOutOfRange | NegativeLen | DivisionByZero
  | RandIntNonPositive

text \<open>The error values that the functions return through their \<open>error\<close> result.\<close>

datatype error = OddRootError | RandError | LengthMismatch | RestNotZero "int list"

text \<open>
  \<open>big.Int.Mod\<close> is the Euclidean modulus: the result lies in \<open>[0, |m|)\<close>, and a zero
  modulus panics.
\<close>

definition bigMod :: "int \<Rightarrow> int \<Rightarrow> panic + int" where
  "bigMod x m = (if m = 0 then Inl DivisionByZero else Inr (x mod \<bar>m\<bar>))"

text \<open>
  The inverse of \<open>g\<close> in the ring of integers modulo \<open>n \<noteq> 0\<close>, in \<open>[0, |n|)\<close>, from
  the Bezout coefficients of the extended Euclidean algorithm; \<open>None\<close> is the nil
  pointer that \<open>big.Int.ModInverse\<close> returns when \<open>g\<close> and \<open>n\<close> are not relatively
  prime. For \<open>n = 0\<close> the documentation of \<open>ModInverse\<close> announces a panic.
\<close>

definition modinv :: "int \<Rightarrow> int \<Rightarrow> int option" where
  "modinv g n =
     (if gcd g n \<noteq> 1 then None
      else Some (fst (bezw (nat (g mod \<bar>n\<bar>)) (nat \<bar>n\<bar>)) mod \<bar>n\<bar>))"

definition bigModInverse :: "int \<Rightarrow> int \<Rightarrow> panic + int option" where
  "bigModInverse g n = (if n = 0 then Inl DivisionByZero else Inr (modinv g n))"

text \<open>
  \<open>big.Int.Exp(x, y, m)\<close>: \<open>x ^ y mod |m|\<close>; for \<open>m = 0\<close> the plain power (\<open>1\<close> when
  \<open>y \<le> 0\<close>); for \<open>y < 0\<close> the power of the inverse, nil when there is none.
\<close>

definition bigExp :: "int \<Rightarrow> int \<Rightarrow> int \<Rightarrow> int option" where
  "bigExp x y m =
     (if m = 0 then Some (if y \<le> 0 then 1 else x ^ nat y)
      else if 0 \<le> y then Some (x ^ nat y mod \<bar>m\<bar>)
      else (case modinv x m of
              None \<Rightarrow> None
            | Some i \<Rightarrow> Some (i ^ nat (- y) mod \<bar>m\<bar>)))"

section \<open>Package galois: the field of a given order\<close>

text \<open>A \<open>Field\<close> is its order, a \<open>big.Int\<close>; no constructor checks it.\<close>

type_synonym field = int

definition Field_Add :: "field \<Rightarrow> int \<Rightarrow> int \<Rightarrow> panic + int" where
  "Field_Add f x y = bigMod (x + y) f"

definition Field_Sub :: "field \<Rightarrow> int \<Rightarrow> int \<Rightarrow> panic + int" where
  "Field_Sub f x y = bigMod (x - y) f"

definition Field_Exp :: "field \<Rightarrow> int \<Rightarrow> int \<Rightarrow> int option" where
  "Field_Exp f x y = bigExp x y f"

definition Field_Mul :: "field \<Rightarrow> int \<Rightarrow> int \<Rightarrow> panic + int" where
  "Field_Mul f x y = bigMod (x * y) f"

text \<open>\<open>MultInverse\<close> hands the pointer of \<open>ModInverse\<close> on, nil included.\<close>

definition Field_MultInverse :: "field \<Rightarrow> int \<Rightarrow> panic + int option" where
  "Field_MultInverse f x = bigModInverse x f"

text \<open>
  \<open>Div\<close> multiplies by the pointer it got from \<open>MultInverse\<close> without looking at it:
  \<open>big.Int.Mul\<close> dereferences its argument, so a nil inverse is a nil dereference.
\<close>

definition Field_Div :: "field \<Rightarrow> int \<Rightarrow> int \<Rightarrow> panic + int" where
  "Field_Div f x y =
     (case Field_MultInverse f y of
        Inl e \<Rightarrow> Inl e
      | Inr None \<Rightarrow> Inl NilDereference
      | Inr (Some i) \<Rightarrow> bigMod (x * i) f)"

text \<open>
  The reader is the list of the integers it will yield. \<open>Random\<close> consumes one draw and
  returns it reduced into \<open>[0, order)\<close>, as \<open>rand.Int\<close> does; an exhausted reader is a
  read error.
\<close>

definition Field_Random :: "field \<Rightarrow> int list \<Rightarrow> panic + (error + int) \<times> int list" where
  "Field_Random f r =
     (if f \<le> 0 then Inl RandIntNonPositive
      else (case r of
              [] \<Rightarrow> Inr (Inl RandError, [])
            | v # r' \<Rightarrow> Inr (Inr (v mod f), r')))"

function RootOfUnity_loop ::
  "field \<Rightarrow> int \<Rightarrow> int \<Rightarrow> bool \<Rightarrow> int list \<Rightarrow> panic + (error + int option)" where
  "RootOfUnity_loop f qSub1OverN halfN primitive r =
     (case Field_Random f r of
        Inl pn \<Rightarrow> Inl pn
      | Inr (Inl err, r') \<Rightarrow> Inr (Inl err)
      | Inr (Inr x, r') \<Rightarrow>
          (let root = Field_Exp f x qSub1OverN in
           if \<not> primitive then Inr (Inr root)
           else (case root of
                   None \<Rightarrow> Inl NilDereference
                 | Some rt \<Rightarrow>
                     (case Field_Exp f rt halfN of
                        None \<Rightarrow> Inl NilDereference
                      | Some h \<Rightarrow>
                          if h \<noteq> 1 then Inr (Inr root)
                          else RootOfUnity_loop f qSub1OverN halfN primitive r'))))"
  by pat_completeness auto
termination
  by (relation "measure (\<lambda>(f, e, h, p, r). length r)")
     (auto simp: Field_Random_def split: if_splits list.splits)

definition RootOfUnity ::
  "field \<Rightarrow> int list \<Rightarrow> 64 word \<Rightarrow> bool \<Rightarrow> panic + (error + int option)" where
  "RootOfUnity f r n primitive =
     (if n mod 2 = 1 then Inr (Inl OddRootError)
      else if uint n = 0 then Inl DivisionByZero
      else if (f - 1) mod uint n = 0 then Inr (Inr (Some 1))
      else RootOfUnity_loop f ((f - 1) div uint n) (uint n div 2) primitive r)"

section \<open>Package polynomial: dense coefficient slices\<close>

definition index :: "int list \<Rightarrow> nat \<Rightarrow> panic + int" where
  "index xs i = (if i < length xs then Inr (xs ! i) else Inl IndexOutOfRange)"

definition store :: "int list \<Rightarrow> nat \<Rightarrow> int \<Rightarrow> panic + int list" where
  "store xs i v = (if i < length xs then Inr (xs[i := v]) else Inl IndexOutOfRange)"

definition NewZeroPolynomial :: "int \<Rightarrow> panic + int list" where
  "NewZeroPolynomial maxDegree =
     (if maxDegree + 1 < 0 then Inl NegativeLen
      else Inr (replicate (nat (maxDegree + 1)) 0))"

text \<open>The loop \<open>for i, c := range cs { p[i] = c }\<close>, from index \<open>i\<close> on.\<close>

fun store_range :: "nat \<Rightarrow> int list \<Rightarrow> int list \<Rightarrow> panic + int list" where
  "store_range i [] p = Inr p"
| "store_range i (c # cs) p =
     (case store p i c of
        Inl e \<Rightarrow> Inl e
      | Inr p' \<Rightarrow> store_range (Suc i) cs p')"

definition NewPolynomialFromCoefficients :: "int list \<Rightarrow> panic + int list" where
  "NewPolynomialFromCoefficients cs =
     (case NewZeroPolynomial (int (length cs) - 1) of
        Inl e \<Rightarrow> Inl e
      | Inr p \<Rightarrow> store_range 0 cs p)"

definition ZeroPolynomial :: "int list" where
  "ZeroPolynomial = [0]"

definition OnePolynomial :: "int list" where
  "OnePolynomial = [1]"

text \<open>\<open>Degree\<close>: the loop \<open>for d := len(p) - 1; d >= 1; d--\<close>, then \<open>0\<close>.\<close>

fun Degree_from :: "int list \<Rightarrow> nat \<Rightarrow> nat" where
  "Degree_from p 0 = 0"
| "Degree_from p (Suc d) = (if p ! Suc d \<noteq> 0 then Suc d else Degree_from p d)"

definition Degree :: "int list \<Rightarrow> nat" where
  "Degree p = Degree_from p (length p - 1)"

fun ComputePowers_loop :: "field \<Rightarrow> int \<Rightarrow> nat \<Rightarrow> int list \<Rightarrow> panic + int list" where
  "ComputePowers_loop f x 0 xs = Inr xs"
| "ComputePowers_loop f x (Suc k) xs =
     (case Field_Mul f (last xs) x of
        Inl e \<Rightarrow> Inl e
      | Inr v \<Rightarrow> ComputePowers_loop f x k (xs @ [v]))"

definition ComputePowers :: "int \<Rightarrow> int \<Rightarrow> field \<Rightarrow> panic + int list" where
  "ComputePowers x n f =
     (if n < 0 then Inl NegativeLen
      else if n = 0 then Inr []
      else ComputePowers_loop f x (nat n - 1) [1])"

text \<open>\<open>Evaluate\<close>: Horner's loop from \<open>len(p) - 1\<close> down to \<open>1\<close>, then coefficient \<open>0\<close>.\<close>

fun Evaluate_loop :: "field \<Rightarrow> int \<Rightarrow> int list \<Rightarrow> nat \<Rightarrow> int \<Rightarrow> panic + int" where
  "Evaluate_loop f x p 0 y = Inr y"
| "Evaluate_loop f x p (Suc i) y =
     (case Field_Add f y (p ! Suc i) of
        Inl e \<Rightarrow> Inl e
      | Inr y1 \<Rightarrow>
          (case Field_Mul f y1 x of
             Inl e \<Rightarrow> Inl e
           | Inr y2 \<Rightarrow> Evaluate_loop f x p i y2))"

definition Evaluate :: "int list \<Rightarrow> int \<Rightarrow> field \<Rightarrow> panic + int" where
  "Evaluate p x f =
     (case Evaluate_loop f x p (length p - 1) 0 of
        Inl e \<Rightarrow> Inl e
      | Inr y \<Rightarrow>
          (case index p 0 of
             Inl e \<Rightarrow> Inl e
           | Inr c \<Rightarrow> Field_Add f y c))"

text \<open>
  \<open>EvaluateOnPowers\<close> is generic in the group: \<open>add\<close>, \<open>smul\<close> and \<open>sbase\<close> are the
  methods \<open>Add\<close>, \<open>ScalarMult\<close> and \<open>ScalarBaseMult\<close> of the interface \<open>GroupElement\<close>.
\<close>

fun EvaluateOnPowers_loop ::
  "('g \<Rightarrow> 'g \<Rightarrow> 'g) \<Rightarrow> ('g \<Rightarrow> int \<Rightarrow> 'g) \<Rightarrow> int list \<Rightarrow> nat \<Rightarrow> 'g list \<Rightarrow> 'g \<Rightarrow> 'g" where
  "EvaluateOnPowers_loop add smul p i [] y = y"
| "EvaluateOnPowers_loop add smul p i (x # xs) y =
     EvaluateOnPowers_loop add smul p (Suc i) xs (add y (smul x (p ! i)))"

definition EvaluateOnPowers ::
  "('g \<Rightarrow> 'g \<Rightarrow> 'g) \<Rightarrow> ('g \<Rightarrow> int \<Rightarrow> 'g) \<Rightarrow> (int \<Rightarrow> 'g) \<Rightarrow> int list \<Rightarrow> 'g list \<Rightarrow> error + 'g" where
  "EvaluateOnPowers add smul sbase p xPowers =
     (if length p \<noteq> length xPowers then Inl LengthMismatch
      else Inr (EvaluateOnPowers_loop add smul p 0 xPowers (sbase 0)))"

definition Clone :: "int list \<Rightarrow> panic + int list" where
  "Clone p =
     (case NewZeroPolynomial (int (Degree p)) of
        Inl e \<Rightarrow> Inl e
      | Inr clone \<Rightarrow> store_range 0 p clone)"

text \<open>
  \<open>Mul\<close>: the inner loop over \<open>m\<close> from index \<open>j\<close> on, and the outer loop over \<open>p\<close>.
  In \<open>prod[i+j] = f.Add(prod[i+j], f.Mul(a, b))\<close> the read of \<open>prod[i+j]\<close> is taken
  before the call of \<open>f.Mul\<close>, in the order of the text; the two can only both fail for
  the order zero.
\<close>

fun Mul_inner :: "field \<Rightarrow> int \<Rightarrow> nat \<Rightarrow> nat \<Rightarrow> int list \<Rightarrow> int list \<Rightarrow> panic + int list" where
  "Mul_inner f a i j [] prd = Inr prd"
| "Mul_inner f a i j (b # bs) prd =
     (case index prd (i + j) of
        Inl e \<Rightarrow> Inl e
      | Inr c \<Rightarrow>
          (case Field_Mul f a b of
             Inl e \<Rightarrow> Inl e
           | Inr ab \<Rightarrow>
               (case Field_Add f c ab of
                  Inl e \<Rightarrow> Inl e
                | Inr s \<Rightarrow>
                    (case store prd (i + j) s of
                       Inl e \<Rightarrow> Inl e
                     | Inr prd' \<Rightarrow> Mul_inner f a i (Suc j) bs prd'))))"

fun Mul_outer :: "field \<Rightarrow> nat \<Rightarrow> int list \<Rightarrow> int list \<Rightarrow> int list \<Rightarrow> panic + int list" where
  "Mul_outer f i [] m prd = Inr prd"
| "Mul_outer f i (a # as) m prd =
     (case Mul_inner f a i 0 m prd of
        Inl e \<Rightarrow> Inl e
      | Inr prd' \<Rightarrow> Mul_outer f (Suc i) as m prd')"

definition Mul :: "int list \<Rightarrow> int list \<Rightarrow> field \<Rightarrow> panic + int list" where
  "Mul p m f =
     (case NewZeroPolynomial (int (Degree p) + int (Degree m)) of
        Inl e \<Rightarrow> Inl e
      | Inr prd \<Rightarrow> Mul_outer f 0 p m prd)"

text \<open>\<open>Add\<close>: the loop \<open>for i, v := range p { result[i] = f.Add(result[i], v) }\<close>.\<close>

fun Add_loop :: "field \<Rightarrow> nat \<Rightarrow> int list \<Rightarrow> int list \<Rightarrow> panic + int list" where
  "Add_loop f i [] result = Inr result"
| "Add_loop f i (v # vs) result =
     (case index result i of
        Inl e \<Rightarrow> Inl e
      | Inr c \<Rightarrow>
          (case Field_Add f c v of
             Inl e \<Rightarrow> Inl e
           | Inr s \<Rightarrow>
               (case store result i s of
                  Inl e \<Rightarrow> Inl e
                | Inr result' \<Rightarrow> Add_loop f (Suc i) vs result')))"

definition Add :: "int list \<Rightarrow> int list \<Rightarrow> field \<Rightarrow> panic + int list" where
  "Add p x f =
     (case (if Degree p > Degree x then NewZeroPolynomial (int (Degree p))
            else NewZeroPolynomial (int (Degree x))) of
        Inl e \<Rightarrow> Inl e
      | Inr result \<Rightarrow>
          (case Add_loop f 0 p result of
             Inl e \<Rightarrow> Inl e
           | Inr result' \<Rightarrow> Add_loop f 0 x result'))"

definition Sub :: "int list \<Rightarrow> int list \<Rightarrow> field \<Rightarrow> panic + int list" where
  "Sub p x f =
     (case NewPolynomialFromCoefficients [- 1] of
        Inl e \<Rightarrow> Inl e
      | Inr minusOne \<Rightarrow>
          (case Mul x minusOne f of
             Inl e \<Rightarrow> Inl e
           | Inr negx \<Rightarrow> Add p negx f))"

text \<open>\<open>Eq\<close>: equal degrees, then the loop \<open>for i := 0; i <= p.Degree(); i++\<close>.\<close>

fun Eq_loop :: "int list \<Rightarrow> int list \<Rightarrow> nat \<Rightarrow> nat \<Rightarrow> panic + bool" where
  "Eq_loop p x i 0 = Inr True"
| "Eq_loop p x i (Suc k) =
     (case index p i of
        Inl e \<Rightarrow> Inl e
      | Inr a \<Rightarrow>
          (case index x i of
             Inl e \<Rightarrow> Inl e
           | Inr b \<Rightarrow> if a \<noteq> b then Inr False else Eq_loop p x (Suc i) k))"

definition Eq :: "int list \<Rightarrow> int list \<Rightarrow> panic + bool" where
  "Eq p x =
     (if Degree p \<noteq> Degree x then Inr False
      else Eq_loop p x 0 (Suc (Degree p)))"

text \<open>
  One pass through the body of the loop of \<open>Div\<close>: the new numerator, the new quotient
  and whether the \<open>break\<close> is taken. The body runs only when
  \<open>numerator.Degree() >= divisor.Degree()\<close>, so \<open>ip - id\<close> is not negative.
\<close>

definition Div_body ::
  "int list \<Rightarrow> int list \<Rightarrow> field \<Rightarrow> int list \<Rightarrow> int list \<Rightarrow> panic + int list \<times> int list \<times> bool" where
  "Div_body p divisor f numerator quot =
     (let ip = Degree numerator; id = Degree divisor in
      case index numerator ip of
        Inl e \<Rightarrow> Inl e
      | Inr a \<Rightarrow>
      (case index divisor id of
        Inl e \<Rightarrow> Inl e
      | Inr b \<Rightarrow>
      (case Field_Div f a b of
        Inl e \<Rightarrow> Inl e
      | Inr c \<Rightarrow>
      (case store quot (ip - id) c of
        Inl e \<Rightarrow> Inl e
      | Inr quot' \<Rightarrow>
      (case Mul divisor quot' f of
        Inl e \<Rightarrow> Inl e
      | Inr dq \<Rightarrow>
      (case Sub p dq f of
        Inl e \<Rightarrow> Inl e
      | Inr numerator' \<Rightarrow>
          if Degree numerator' = 0 then
            (case index numerator' 0 of
               Inl e \<Rightarrow> Inl e
             | Inr n0 \<Rightarrow> Inr (numerator', quot', n0 = 0))
          else Inr (numerator', quot', False)))))))"

text \<open>
  The loop of \<open>Div\<close>. Its state is the pair of numerator and quotient; \<open>None\<close> would be a
  loop that never ends.
\<close>

partial_function (option) Div_loop ::
  "int list \<Rightarrow> int list \<Rightarrow> field \<Rightarrow> int list \<Rightarrow> int list \<Rightarrow> (panic + int list \<times> int list) option" where
  "Div_loop p divisor f numerator quot =
     (if Degree divisor \<le> Degree numerator then
        (case Div_body p divisor f numerator quot of
           Inl e \<Rightarrow> Some (Inl e)
         | Inr (numerator', quot', brk) \<Rightarrow>
             if brk then Some (Inr (quot', numerator'))
             else Div_loop p divisor f numerator' quot')
      else Some (Inr (quot, numerator)))"

declare Div_loop.simps [code]

definition Div :: "int list \<Rightarrow> int list \<Rightarrow> field \<Rightarrow> (panic + int list \<times> int list) option" where
  "Div p divisor f =
     (case Clone p of
        Inl e \<Rightarrow> Some (Inl e)
      | Inr numerator \<Rightarrow>
          (case NewZeroPolynomial (int (Degree numerator) - int (Degree divisor)) of
             Inl e \<Rightarrow> Some (Inl e)
           | Inr quot \<Rightarrow> Div_loop p divisor f numerator quot))"

section \<open>Package main: the quotient of an opening\<close>

definition getQuotient ::
  "int list \<Rightarrow> int \<Rightarrow> int \<Rightarrow> field \<Rightarrow> (panic + (error + int list)) option" where
  "getQuotient p x y f =
     (case Add p [- y] f of
        Inl e \<Rightarrow> Some (Inl e)
      | Inr py \<Rightarrow>
          (case Div py [- x, 1] f of
             None \<Rightarrow> None
           | Some (Inl e) \<Rightarrow> Some (Inl e)
           | Some (Inr (q, r)) \<Rightarrow>
               (case Eq r ZeroPolynomial of
                  Inl e \<Rightarrow> Some (Inl e)
                | Inr same \<Rightarrow>
                    if \<not> same then Some (Inr (Inl (RestNotZero r)))
                    else Some (Inr (Inr q)))))"


section \<open>Coefficients, convolution and the relation kept by the division loop\<close>

text \<open>
  The notions below are not code of the repository; the lemmas about \<open>Mul\<close>, \<open>Add\<close>
  and \<open>Div\<close> are stated with them. \<open>coeff p i\<close> reads a polynomial as an infinite
  sequence, \<open>conv a b k\<close> is the \<open>k\<close>-th coefficient of the product over the integers,
  and \<open>rows i as m k\<close> is what the outer loop of \<open>Mul\<close> adds to slot \<open>k\<close> while it runs
  over \<open>as\<close> from index \<open>i\<close>.
\<close>

definition coeff :: "int list \<Rightarrow> nat \<Rightarrow> int" where
  "coeff p i = (if i < length p then p ! i else 0)"

definition conv :: "int list \<Rightarrow> int list \<Rightarrow> nat \<Rightarrow> int" where
  "conv a b k = (\<Sum>t\<le>k. coeff a t * coeff b (k - t))"

fun rows :: "nat \<Rightarrow> int list \<Rightarrow> int list \<Rightarrow> nat \<Rightarrow> int" where
  "rows i [] m k = 0"
| "rows i (a # as) m k = (if i \<le> k then a * coeff m (k - i) else 0) + rows (Suc i) as m k"

text \<open>
  What the loop of \<open>Div\<close> keeps between the dividend \<open>p\<close>, the divisor \<open>d\<close>, the
  numerator and the quotient built so far: the numerator is \<open>p - d * quo\<close> coefficient
  by coefficient modulo the order, and both are reduced.
\<close>

definition div_rel :: "int list \<Rightarrow> int list \<Rightarrow> int \<Rightarrow> int list \<Rightarrow> int list \<Rightarrow> bool" where
  "div_rel p d f num quo \<longleftrightarrow>
     length num = length p \<and> length quo = Suc (Degree p - Degree d) \<and>
     (\<forall>k<length p. num ! k mod \<bar>f\<bar> = (p ! k - conv quo d k) mod \<bar>f\<bar>) \<and>
     (\<forall>k<length p. 0 \<le> num ! k \<and> num ! k < \<bar>f\<bar>) \<and>
     (\<forall>j<length quo. 0 \<le> quo ! j \<and> quo ! j < \<bar>f\<bar>)"

section \<open>Basic facts about the degree, the stores and the clone\<close>

lemma Degree_from_le: "Degree_from p d \<le> d"
  by (induction d) auto

lemma Degree_from_nonzero: "0 < Degree_from p d \<Longrightarrow> p ! Degree_from p d \<noteq> 0"
  by (induction d) (auto split: if_splits)

lemma Degree_from_above: "Degree_from p d < i \<Longrightarrow> i \<le> d \<Longrightarrow> p ! i = 0"
  by (induction d) (auto split: if_splits simp: le_Suc_eq)

lemma Degree_lt_length: "p \<noteq> [] \<Longrightarrow> Degree p < length p"
  unfolding Degree_def using Degree_from_le [of p "length p - 1"] by (cases p) auto

lemma Degree_le_length: "Degree p \<le> length p - 1"
  unfolding Degree_def by (rule Degree_from_le)

lemma Degree_nonzero: "0 < Degree p \<Longrightarrow> p ! Degree p \<noteq> 0"
  unfolding Degree_def by (rule Degree_from_nonzero)

lemma Degree_above: "Degree p < i \<Longrightarrow> i < length p \<Longrightarrow> p ! i = 0"
  unfolding Degree_def by (rule Degree_from_above) auto

lemma Degree_Nil [simp]: "Degree [] = 0"
  by (simp add: Degree_def)

lemma Degree_single [simp]: "Degree [c] = 0"
  by (simp add: Degree_def)

lemma Degree_from_eqI: "d = 0 \<or> p ! d \<noteq> 0 \<Longrightarrow> Degree_from p d = d"
  by (cases d) auto

lemma Degree_eqI: "length p = Suc n \<Longrightarrow> n = 0 \<or> p ! n \<noteq> 0 \<Longrightarrow> Degree p = n"
  by (simp add: Degree_def Degree_from_eqI)

lemma Degree_from_zero: "(\<forall>i. 0 < i \<and> i \<le> d \<longrightarrow> p ! i = 0) \<Longrightarrow> Degree_from p d = 0"
  by (induction d) auto

lemma Degree_eq_0I: "(\<And>i. 0 < i \<Longrightarrow> i < length p \<Longrightarrow> p ! i = 0) \<Longrightarrow> Degree p = 0"
  unfolding Degree_def by (rule Degree_from_zero) auto

lemma Degree_replicate [simp]: "Degree (replicate n 0) = 0"
  by (rule Degree_eq_0I) simp

lemma NewZeroPolynomial_nat [simp]: "NewZeroPolynomial (int n) = Inr (replicate (Suc n) 0)"
  by (simp add: NewZeroPolynomial_def nat_add_distrib)

lemma store_range_ok:
  "i + length cs \<le> length p \<Longrightarrow>
   store_range i cs p = Inr (take i p @ cs @ drop (i + length cs) p)"
proof (induction cs arbitrary: i p)
  case Nil
  then show ?case by simp
next
  case (Cons c cs)
  then have i: "i < length p" by simp
  have "store_range (Suc i) cs (p[i := c]) =
        Inr (take (Suc i) (p[i := c]) @ cs @ drop (Suc i + length cs) (p[i := c]))"
    using Cons.prems by (intro Cons.IH) simp
  moreover have "take (Suc i) (p[i := c]) = take i p @ [c]"
    using i by (simp add: take_Suc_conv_app_nth)
  ultimately show ?case using i by (simp add: store_def)
qed

lemma store_range_fail:
  "i \<le> length p \<Longrightarrow> length p < i + length cs \<Longrightarrow> store_range i cs p = Inl IndexOutOfRange"
proof (induction cs arbitrary: i p)
  case Nil
  then show ?case by simp
next
  case (Cons c cs)
  show ?case
  proof (cases "i < length p")
    case True
    then show ?thesis using Cons.prems Cons.IH [of "Suc i" "p[i := c]"]
      by (simp add: store_def)
  next
    case False
    then show ?thesis by (simp add: store_def)
  qed
qed

text \<open>
  \<open>Clone\<close> allocates \<open>Degree p + 1\<close> slots and then writes every slot of \<open>p\<close>: it
  returns a copy exactly when \<open>p\<close> has no slot beyond its degree.
\<close>

lemma Clone_ok: "length p \<le> Suc (Degree p) \<Longrightarrow> Clone p = Inr (if p = [] then [0] else p)"
proof -
  assume a: "length p \<le> Suc (Degree p)"
  show ?thesis
  proof (cases "p = []")
    case True
    then show ?thesis by (simp add: Clone_def NewZeroPolynomial_def)
  next
    case False
    then have "length p = Suc (Degree p)" using a Degree_lt_length [of p] by simp
    then show ?thesis using False
      by (simp add: Clone_def store_range_ok)
  qed
qed

lemma Clone_fail: "Suc (Degree p) < length p \<Longrightarrow> Clone p = Inl IndexOutOfRange"
  by (simp add: Clone_def store_range_fail)

lemma Clone_cases:
  "(Clone p = Inl IndexOutOfRange \<and> Suc (Degree p) < length p) \<or>
   (\<exists>n. Clone p = Inr n \<and> Degree n = Degree p \<and> length p \<le> Suc (Degree p) \<and> n \<noteq> [])"
proof (cases "Suc (Degree p) < length p")
  case True
  then show ?thesis by (simp add: Clone_fail)
next
  case False
  then have "length p \<le> Suc (Degree p)" by simp
  then show ?thesis by (simp add: Clone_ok)
qed

lemma Div_loop_skip:
  "Degree numerator < Degree divisor \<Longrightarrow>
   Div_loop p divisor f numerator quot = Some (Inr (quot, numerator))"
  by (subst Div_loop.simps) simp

lemma Div_loop_panic:
  "Degree divisor \<le> Degree numerator \<Longrightarrow> Div_body p divisor f numerator quot = Inl e \<Longrightarrow>
   Div_loop p divisor f numerator quot = Some (Inl e)"
  by (subst Div_loop.simps) simp

lemma modinv_None: "gcd y f \<noteq> 1 \<Longrightarrow> modinv y f = None"
  by (simp add: modinv_def)

lemma Field_Div_nil: "f \<noteq> 0 \<Longrightarrow> gcd y f \<noteq> 1 \<Longrightarrow> Field_Div f x y = Inl NilDereference"
  by (simp add: Field_Div_def Field_MultInverse_def bigModInverse_def modinv_None)

section \<open>What \<open>Mul\<close>, \<open>Add\<close> and \<open>Sub\<close> compute\<close>

lemma bigMod_ok [simp]: "f \<noteq> 0 \<Longrightarrow> bigMod x f = Inr (x mod \<bar>f\<bar>)"
  by (simp add: bigMod_def)

lemma Mul_inner_ok:
  assumes "f \<noteq> 0" "i + j + length bs \<le> length prd"
  shows "Mul_inner f a i j bs prd =
    Inr (map (\<lambda>k. if i + j \<le> k \<and> k < i + j + length bs
                   then (prd ! k + a * bs ! (k - (i + j))) mod \<bar>f\<bar> else prd ! k)
             [0..<length prd])"
  using assms
proof (induction bs arbitrary: j prd)
  case Nil
  then show ?case by (auto intro!: nth_equalityI)
next
  case (Cons b bs)
  let ?s = "(prd ! (i + j) + a * b) mod \<bar>f\<bar>"
  let ?prd = "prd[i + j := ?s]"
  have lt: "i + j < length prd" using Cons.prems by simp
  have step: "Mul_inner f a i j (b # bs) prd = Mul_inner f a i (Suc j) bs ?prd"
    using lt Cons.prems(1)
    by (simp add: index_def store_def Field_Mul_def Field_Add_def mod_add_right_eq)
  have "Mul_inner f a i (Suc j) bs ?prd =
    Inr (map (\<lambda>k. if i + Suc j \<le> k \<and> k < i + Suc j + length bs
                   then (?prd ! k + a * bs ! (k - (i + Suc j))) mod \<bar>f\<bar> else ?prd ! k)
             [0..<length ?prd])"
    using Cons.prems by (intro Cons.IH) auto
  also have "\<dots> = Inr (map (\<lambda>k. if i + j \<le> k \<and> k < i + j + length (b # bs)
                   then (prd ! k + a * (b # bs) ! (k - (i + j))) mod \<bar>f\<bar> else prd ! k)
             [0..<length prd])"
    using lt by (auto simp: nth_list_update nth_Cons' intro!: nth_equalityI)
  finally show ?case using step by simp
qed

lemma Mul_inner_row:
  assumes "f \<noteq> 0" "i + length m \<le> length prd"
  shows "\<exists>r. Mul_inner f a i 0 m prd = Inr r \<and> length r = length prd \<and>
     (\<forall>k<length prd. r ! k mod \<bar>f\<bar> = (prd ! k + (if i \<le> k then a * coeff m (k - i) else 0)) mod \<bar>f\<bar>) \<and>
     ((\<forall>k<length prd. 0 \<le> prd ! k \<and> prd ! k < \<bar>f\<bar>) \<longrightarrow> (\<forall>k<length prd. 0 \<le> r ! k \<and> r ! k < \<bar>f\<bar>))"
  using assms Mul_inner_ok [of f i 0 m prd a]
  by (auto simp: coeff_def)


lemma Mul_outer_ok:
  assumes "f \<noteq> 0" "m \<noteq> []" "i + length as + length m \<le> Suc (length prd)"
  shows "\<exists>r. Mul_outer f i as m prd = Inr r \<and> length r = length prd \<and>
     (\<forall>k<length prd. r ! k mod \<bar>f\<bar> = (prd ! k + rows i as m k) mod \<bar>f\<bar>) \<and>
     ((\<forall>k<length prd. 0 \<le> prd ! k \<and> prd ! k < \<bar>f\<bar>) \<longrightarrow> (\<forall>k<length prd. 0 \<le> r ! k \<and> r ! k < \<bar>f\<bar>))"
  using assms
proof (induction as arbitrary: i prd)
  case Nil
  then show ?case by simp
next
  case (Cons a as)
  have "i + length m \<le> length prd" using Cons.prems by simp
  from Mul_inner_row [OF Cons.prems(1) this, of a]
  obtain r1 where r1: "Mul_inner f a i 0 m prd = Inr r1" "length r1 = length prd"
    "\<forall>k<length prd. r1 ! k mod \<bar>f\<bar> = (prd ! k + (if i \<le> k then a * coeff m (k - i) else 0)) mod \<bar>f\<bar>"
    "(\<forall>k<length prd. 0 \<le> prd ! k \<and> prd ! k < \<bar>f\<bar>) \<longrightarrow> (\<forall>k<length prd. 0 \<le> r1 ! k \<and> r1 ! k < \<bar>f\<bar>)"
    by blast
  have "Suc i + length as + length m \<le> Suc (length r1)" using Cons.prems r1(2) by simp
  from Cons.IH [OF Cons.prems(1,2) this]
  obtain r where r: "Mul_outer f (Suc i) as m r1 = Inr r" "length r = length r1"
    "\<forall>k<length r1. r ! k mod \<bar>f\<bar> = (r1 ! k + rows (Suc i) as m k) mod \<bar>f\<bar>"
    "(\<forall>k<length r1. 0 \<le> r1 ! k \<and> r1 ! k < \<bar>f\<bar>) \<longrightarrow> (\<forall>k<length r1. 0 \<le> r ! k \<and> r ! k < \<bar>f\<bar>)"
    by blast
  have "r ! k mod \<bar>f\<bar> = (prd ! k + rows i (a # as) m k) mod \<bar>f\<bar>" if k: "k < length prd" for k
  proof -
    have "r ! k mod \<bar>f\<bar> = (r1 ! k mod \<bar>f\<bar> + rows (Suc i) as m k) mod \<bar>f\<bar>"
      using r(3) r1(2) k by (simp add: mod_add_left_eq)
    also have "\<dots> = ((prd ! k + (if i \<le> k then a * coeff m (k - i) else 0)) mod \<bar>f\<bar> + rows (Suc i) as m k) mod \<bar>f\<bar>"
      using r1(3) k by simp
    also have "\<dots> = (prd ! k + rows i (a # as) m k) mod \<bar>f\<bar>"
      by (simp add: mod_add_left_eq add.assoc)
    finally show ?thesis .
  qed
  then show ?case using r1 r by simp
qed

lemma rows_sum:
  "rows i as m k = (\<Sum>t<length as. if i + t \<le> k then as ! t * coeff m (k - (i + t)) else 0)"
proof (induction as arbitrary: i)
  case Nil
  then show ?case by simp
next
  case (Cons a as)
  let ?g = "\<lambda>t. if i + t \<le> k then (a # as) ! t * coeff m (k - (i + t)) else 0"
  have "(\<Sum>t<Suc (length as). ?g t) = ?g 0 + (\<Sum>t<length as. ?g (Suc t))"
    by (rule sum.lessThan_Suc_shift)
  then show ?case by (simp add: Cons.IH del: sum.lessThan_Suc cong: if_cong)
qed

lemma rows_conv: "rows 0 p m k = conv p m k"
proof -
  have "rows 0 p m k = (\<Sum>t\<in>{..<length p}. if t \<in> {..k} then p ! t * coeff m (k - t) else 0)"
    by (simp add: rows_sum cong: if_cong)
  also have "\<dots> = (\<Sum>t\<in>{..<length p} \<inter> {..k}. p ! t * coeff m (k - t))"
    by (rule sum.inter_restrict [symmetric]) simp
  also have "\<dots> = (\<Sum>t\<in>{..k} \<inter> {..<length p}. p ! t * coeff m (k - t))"
    by (simp add: Int_commute)
  also have "\<dots> = (\<Sum>t\<in>{..k}. if t \<in> {..<length p} then p ! t * coeff m (k - t) else 0)"
    by (rule sum.inter_restrict) simp
  also have "\<dots> = conv p m k"
    unfolding conv_def by (intro sum.cong) (auto simp: coeff_def)
  finally show ?thesis .
qed

lemma Mul_ok:
  assumes "f \<noteq> 0" "length p = Suc (Degree p)" "length m = Suc (Degree m)"
  shows "Mul p m f = Inr (map (\<lambda>k. conv p m k mod \<bar>f\<bar>) [0..<Suc (Degree p + Degree m)])"
proof -
  let ?z = "replicate (Suc (Degree p + Degree m)) (0::int)"
  have m: "m \<noteq> []" using assms(3) by auto
  have "0 + length p + length m \<le> Suc (length ?z)" using assms by simp
  from Mul_outer_ok [OF assms(1) m this]
  obtain r where r: "Mul_outer f 0 p m ?z = Inr r" "length r = length ?z"
    "\<forall>k<length ?z. r ! k mod \<bar>f\<bar> = (?z ! k + rows 0 p m k) mod \<bar>f\<bar>"
    "(\<forall>k<length ?z. 0 \<le> ?z ! k \<and> ?z ! k < \<bar>f\<bar>) \<longrightarrow> (\<forall>k<length ?z. 0 \<le> r ! k \<and> r ! k < \<bar>f\<bar>)"
    by blast
  have z: "\<forall>k<length ?z. ?z ! k = 0" by (simp del: replicate.simps)
  have red: "\<forall>k<length ?z. 0 \<le> r ! k \<and> r ! k < \<bar>f\<bar>" using r(4) assms(1) z by simp
  have "r = map (\<lambda>k. conv p m k mod \<bar>f\<bar>) [0..<Suc (Degree p + Degree m)]"
  proof (rule nth_equalityI)
    show "length r = length (map (\<lambda>k. conv p m k mod \<bar>f\<bar>) [0..<Suc (Degree p + Degree m)])"
      using r(2) by simp
  next
    fix k assume "k < length r"
    then have k: "k < Suc (Degree p + Degree m)" using r(2) by simp
    then have "r ! k = r ! k mod \<bar>f\<bar>" using red by simp
    also have "\<dots> = conv p m k mod \<bar>f\<bar>" using r(3) k z by (simp add: rows_conv)
    finally show "r ! k = map (\<lambda>k. conv p m k mod \<bar>f\<bar>) [0..<Suc (Degree p + Degree m)] ! k"
      using k by (simp del: upt_Suc)
  qed
  then show ?thesis using r(1) by (simp add: Mul_def flip: of_nat_add)
qed


lemma conv_top:
  assumes "length p = Suc dp" "length m = Suc dm"
  shows "conv p m (dp + dm) = p ! dp * m ! dm"
proof -
  have "conv p m (dp + dm) = (\<Sum>t\<le>dp + dm. if t = dp then p ! dp * m ! dm else 0)"
    unfolding conv_def using assms by (intro sum.cong) (auto simp: coeff_def)
  also have "\<dots> = p ! dp * m ! dm" by simp
  finally show ?thesis .
qed

lemma Add_loop_ok:
  assumes "f \<noteq> 0" "i + length vs \<le> length result"
  shows "Add_loop f i vs result =
    Inr (map (\<lambda>k. if i \<le> k \<and> k < i + length vs
                   then (result ! k + vs ! (k - i)) mod \<bar>f\<bar> else result ! k)
             [0..<length result])"
  using assms
proof (induction vs arbitrary: i result)
  case Nil
  then show ?case by (auto intro!: nth_equalityI)
next
  case (Cons v vs)
  let ?s = "(result ! i + v) mod \<bar>f\<bar>"
  let ?res = "result[i := ?s]"
  have lt: "i < length result" using Cons.prems by simp
  have step: "Add_loop f i (v # vs) result = Add_loop f (Suc i) vs ?res"
    using lt Cons.prems(1) by (simp add: index_def store_def Field_Add_def)
  have "Add_loop f (Suc i) vs ?res =
    Inr (map (\<lambda>k. if Suc i \<le> k \<and> k < Suc i + length vs
                   then (?res ! k + vs ! (k - Suc i)) mod \<bar>f\<bar> else ?res ! k)
             [0..<length ?res])"
    using Cons.prems by (intro Cons.IH) auto
  also have "\<dots> = Inr (map (\<lambda>k. if i \<le> k \<and> k < i + length (v # vs)
                   then (result ! k + (v # vs) ! (k - i)) mod \<bar>f\<bar> else result ! k)
             [0..<length result])"
    using lt by (auto simp: nth_list_update nth_Cons' intro!: nth_equalityI)
  finally show ?case using step by simp
qed

lemma Add_ok:
  assumes "f \<noteq> 0"
    and "length p \<le> Suc (max (Degree p) (Degree x))"
    and "length x \<le> Suc (max (Degree p) (Degree x))"
  shows "Add p x f =
    Inr (map (\<lambda>k. (coeff p k + coeff x k) mod \<bar>f\<bar>) [0..<Suc (max (Degree p) (Degree x))])"
proof -
  let ?n = "Suc (max (Degree p) (Degree x))"
  let ?z = "replicate ?n (0::int)"
  let ?r1 = "map (\<lambda>k. if 0 \<le> k \<and> k < 0 + length p
                   then (?z ! k + p ! (k - 0)) mod \<bar>f\<bar> else ?z ! k) [0..<length ?z]"
  have alloc: "(if Degree p > Degree x then NewZeroPolynomial (int (Degree p))
            else NewZeroPolynomial (int (Degree x))) = Inr ?z"
    by (auto simp: max_def)
  have l1: "Add_loop f 0 p ?z = Inr ?r1"
    using assms by (intro Add_loop_ok) simp_all
  have l2: "Add_loop f 0 x ?r1 =
    Inr (map (\<lambda>k. if 0 \<le> k \<and> k < 0 + length x
                   then (?r1 ! k + x ! (k - 0)) mod \<bar>f\<bar> else ?r1 ! k) [0..<length ?r1])"
    using assms by (intro Add_loop_ok) simp_all
  have "map (\<lambda>k. if 0 \<le> k \<and> k < 0 + length x
                   then (?r1 ! k + x ! (k - 0)) mod \<bar>f\<bar> else ?r1 ! k) [0..<length ?r1]
      = map (\<lambda>k. (coeff p k + coeff x k) mod \<bar>f\<bar>) [0..<?n]"
    by (rule nth_equalityI) (auto simp: coeff_def mod_add_left_eq simp del: upt_Suc replicate.simps)
  then show ?thesis
    unfolding Add_def alloc using l1 l2 by (simp del: upt_Suc replicate.simps)
qed

text \<open>\<open>Add\<close> panics as soon as one operand has more slots than the result.\<close>

lemma Add_loop_fail:
  "f \<noteq> 0 \<Longrightarrow> i \<le> length result \<Longrightarrow> length result < i + length vs \<Longrightarrow>
   Add_loop f i vs result = Inl IndexOutOfRange"
proof (induction vs arbitrary: i result)
  case Nil
  then show ?case by simp
next
  case (Cons v vs)
  show ?case
  proof (cases "i < length result")
    case True
    then show ?thesis
      using Cons.prems Cons.IH [of "Suc i" "result[i := (result ! i + v) mod \<bar>f\<bar>]"]
      by (simp add: index_def store_def Field_Add_def)
  next
    case False
    then show ?thesis by (simp add: index_def)
  qed
qed

lemma Add_fail:
  assumes "f \<noteq> 0"
    and "Suc (max (Degree p) (Degree x)) < length p \<or> Suc (max (Degree p) (Degree x)) < length x"
  shows "Add p x f = Inl IndexOutOfRange"
proof -
  let ?n = "Suc (max (Degree p) (Degree x))"
  let ?z = "replicate ?n (0::int)"
  have alloc: "(if Degree p > Degree x then NewZeroPolynomial (int (Degree p))
            else NewZeroPolynomial (int (Degree x))) = Inr ?z"
    by (auto simp: max_def)
  show ?thesis
  proof (cases "?n < length p")
    case True
    then have "Add_loop f 0 p ?z = Inl IndexOutOfRange"
      using assms(1) by (intro Add_loop_fail) simp_all
    then show ?thesis unfolding Add_def alloc by simp
  next
    case False
    then have "Add_loop f 0 p ?z = Inr (map (\<lambda>k. if 0 \<le> k \<and> k < 0 + length p
                   then (?z ! k + p ! (k - 0)) mod \<bar>f\<bar> else ?z ! k) [0..<length ?z])"
      using assms(1) by (intro Add_loop_ok) simp_all
    moreover have "Add_loop f 0 x (map (\<lambda>k. if 0 \<le> k \<and> k < 0 + length p
                   then (?z ! k + p ! (k - 0)) mod \<bar>f\<bar> else ?z ! k) [0..<length ?z]) = Inl IndexOutOfRange"
      using assms False by (intro Add_loop_fail) simp_all
    ultimately show ?thesis unfolding Add_def alloc by (simp del: upt_Suc replicate.simps)
  qed
qed

lemma conv_commute: "conv a b k = conv b a k"
proof -
  have "conv a b k = (\<Sum>t\<in>{0..k}. coeff a t * coeff b (k - t))"
    by (simp add: conv_def atMost_atLeast0)
  also have "\<dots> = (\<Sum>t\<in>{0..k}. coeff a (k + 0 - t) * coeff b (k - (k + 0 - t)))"
    by (rule sum.atLeastAtMost_rev)
  also have "\<dots> = (\<Sum>t\<in>{0..k}. coeff b t * coeff a (k - t))"
    by (intro sum.cong) (auto simp: mult.commute)
  finally show ?thesis by (simp add: conv_def atMost_atLeast0)
qed

lemma conv_update:
  assumes "j0 < length q"
  shows "conv (q[j0 := c]) d k =
         conv q d k + (if j0 \<le> k then (c - q ! j0) * coeff d (k - j0) else 0)"
proof -
  have "coeff (q[j0 := c]) t * coeff d (k - t) =
        coeff q t * coeff d (k - t) + (if t = j0 then (c - q ! j0) * coeff d (k - j0) else 0)" for t
    using assms by (auto simp: coeff_def algebra_simps)
  then have "conv (q[j0 := c]) d k =
     (\<Sum>t\<le>k. coeff q t * coeff d (k - t) + (if t = j0 then (c - q ! j0) * coeff d (k - j0) else 0))"
    by (simp add: conv_def)
  also have "\<dots> = conv q d k + (\<Sum>t\<le>k. if t = j0 then (c - q ! j0) * coeff d (k - j0) else 0)"
    by (simp add: sum.distrib conv_def)
  also have "(\<Sum>t\<le>k. if t = j0 then (c - q ! j0) * coeff d (k - j0) else 0) =
             (if j0 \<le> k then (c - q ! j0) * coeff d (k - j0) else 0)"
    by simp
  finally show ?thesis .
qed

lemma conv_minus_one: "conv x [- 1] k = - coeff x k"
proof -
  have "conv x [- 1] k = (\<Sum>t\<le>k. if t = k then - coeff x k else 0)"
    unfolding conv_def by (intro sum.cong) (auto simp: coeff_def)
  then show ?thesis by simp
qed

lemma coeff_replicate [simp]: "coeff (replicate n 0) i = 0"
  by (simp add: coeff_def)

lemma conv_zeros: "conv d (replicate n 0) k = 0"
  by (simp add: conv_def)

lemma Degree_lessI:
  assumes "0 < n" "\<And>k. n \<le> k \<Longrightarrow> k < length p \<Longrightarrow> p ! k = 0"
  shows "Degree p < n"
proof (rule ccontr)
  assume "\<not> Degree p < n"
  then have ge: "n \<le> Degree p" by simp
  then have pos: "0 < Degree p" using assms(1) by simp
  then have "p \<noteq> []" by (auto simp: Degree_def)
  then have "Degree p < length p" by (rule Degree_lt_length)
  then have "p ! Degree p = 0" using assms(2) ge by simp
  then show False using Degree_nonzero [OF pos] by simp
qed


lemma modinv_ok:
  assumes "f \<noteq> 0" "coprime b f"
  shows "\<exists>i. modinv b f = Some i \<and> (b * i) mod \<bar>f\<bar> = 1 mod \<bar>f\<bar>"
proof -
  let ?M = "\<bar>f\<bar>"
  let ?x = "nat (b mod ?M)" and ?y = "nat ?M"
  let ?u = "fst (bezw ?x ?y)" and ?v = "snd (bezw ?x ?y)"
  have M: "0 < ?M" using assms(1) by simp
  have x: "int ?x = b mod ?M" using M by simp
  have y: "int ?y = ?M" by simp
  have "int (gcd ?x ?y) = gcd (int ?x) (int ?y)" by simp
  also have "\<dots> = gcd (b mod ?M) ?M" unfolding x y ..
  also have "\<dots> = gcd \<bar>f\<bar> (b mod \<bar>f\<bar>)" by (simp add: gcd.commute)
  also have "\<dots> = gcd b \<bar>f\<bar>" by (rule gcd_red_int [symmetric])
  also have "\<dots> = gcd b f" by simp
  also have "\<dots> = 1" using assms(2) by simp
  finally have "1 = ?u * (b mod ?M) + ?v * ?M"
    using bezw_aux [of ?x ?y] unfolding x y by simp
  then have "(?u * (b mod ?M) + ?v * ?M) mod ?M = 1 mod ?M" by simp
  then have "((b mod ?M) * ?u) mod ?M = 1 mod ?M"
    by (simp add: mult.commute)
  then have "(b * ?u) mod ?M = 1 mod ?M"
    by (simp add: mod_mult_left_eq)
  then have "(b * (?u mod ?M)) mod ?M = 1 mod ?M"
    by (simp add: mod_mult_right_eq)
  moreover have "modinv b f = Some (?u mod ?M)"
    using assms(2) by (simp add: modinv_def)
  ultimately show ?thesis by blast
qed

lemma Field_Div_ok:
  assumes "f \<noteq> 0" "coprime b f"
  shows "\<exists>c. Field_Div f a b = Inr c \<and> 0 \<le> c \<and> c < \<bar>f\<bar> \<and> (b * c) mod \<bar>f\<bar> = a mod \<bar>f\<bar>"
proof -
  from modinv_ok [OF assms] obtain i where
    i: "modinv b f = Some i" "(b * i) mod \<bar>f\<bar> = 1 mod \<bar>f\<bar>" by blast
  let ?c = "(a * i) mod \<bar>f\<bar>"
  have "(b * ?c) mod \<bar>f\<bar> = (a * (b * i)) mod \<bar>f\<bar>"
    by (simp add: mod_mult_right_eq mult.left_commute)
  also have "\<dots> = (a * ((b * i) mod \<bar>f\<bar>)) mod \<bar>f\<bar>"
    by (simp add: mod_mult_right_eq)
  also have "\<dots> = a mod \<bar>f\<bar>"
    unfolding i(2) by (simp add: mod_mult_right_eq)
  finally have "(b * ?c) mod \<bar>f\<bar> = a mod \<bar>f\<bar>" .
  moreover have "Field_Div f a b = Inr ?c"
    using assms(1) i(1) by (simp add: Field_Div_def Field_MultInverse_def bigModInverse_def)
  ultimately show ?thesis using assms(1) by simp
qed

lemma NewPolynomialFromCoefficients_single [simp]:
  "NewPolynomialFromCoefficients [c] = Inr [c]"
  by (simp add: NewPolynomialFromCoefficients_def NewZeroPolynomial_def store_def)

lemma Degree_map_le: "Degree (map g [0..<Suc n]) \<le> n"
  using Degree_le_length [of "map g [0..<Suc n]"] by simp

lemma Sub_ok:
  assumes "f \<noteq> 0" "length p = Suc (Degree p)" "length x = Suc (Degree x)"
    and "Degree x = Degree p"
  shows "Sub p x f = Inr (map (\<lambda>k. (p ! k - x ! k) mod \<bar>f\<bar>) [0..<length p])"
proof -
  let ?n = "Degree p"
  let ?negx = "map (\<lambda>k. conv x [- 1] k mod \<bar>f\<bar>) [0..<Suc ?n]"
  have mul: "Mul x [- 1] f = Inr ?negx"
    using Mul_ok [OF assms(1,3), of "[- 1]"] assms(4) by simp
  have dn: "Degree ?negx \<le> ?n" by (rule Degree_map_le)
  then have mx: "max (Degree p) (Degree ?negx) = ?n" by simp
  have "Add p ?negx f =
    Inr (map (\<lambda>k. (coeff p k + coeff ?negx k) mod \<bar>f\<bar>) [0..<Suc (max (Degree p) (Degree ?negx))])"
    using assms(1,2) by (intro Add_ok) (simp_all add: mx del: upt_Suc)
  also have "map (\<lambda>k. (coeff p k + coeff ?negx k) mod \<bar>f\<bar>) [0..<Suc (max (Degree p) (Degree ?negx))]
           = map (\<lambda>k. (p ! k - x ! k) mod \<bar>f\<bar>) [0..<length p]"
    unfolding mx using assms(2-4)
    by (intro nth_equalityI)
       (auto simp: coeff_def conv_minus_one mod_add_right_eq simp del: upt_Suc)
  finally show ?thesis using mul by (simp add: Sub_def del: upt_Suc)
qed

section \<open>Division in the field and the loop of \<open>Div\<close>\<close>

lemma not_dvd_reduced: "0 < y \<Longrightarrow> y < \<bar>f\<bar> \<Longrightarrow> \<not> f dvd (y::int)"
  using zdvd_not_zless [of y "\<bar>f\<bar>"] by simp

lemma coprime_lead_product:
  assumes "coprime b f" "0 < y" "y < \<bar>f\<bar>"
  shows "(b * y) mod \<bar>f\<bar> \<noteq> (0::int)"
proof
  assume "(b * y) mod \<bar>f\<bar> = 0"
  then have "f dvd b * y" by (simp add: mod_eq_0_iff_dvd)
  then have "f dvd y" using assms(1)
    using coprime_commute coprime_dvd_mult_right_iff by blast
  then show False using not_dvd_reduced [OF assms(2,3)] by simp
qed


lemma Div_body_step:
  assumes f: "f \<noteq> 0"
    and p: "length p = Suc (Degree p)"
    and d: "length d = Suc (Degree d)" "coprime (d ! Degree d) f"
    and rel: "div_rel p d f num quo"
    and low: "\<forall>j<length quo. j + Degree d \<le> Degree num \<longrightarrow> quo ! j = 0"
    and top: "Degree num < Degree p \<longrightarrow> quo ! (Degree p - Degree d) \<noteq> 0"
    and enter: "Degree d \<le> Degree num"
  shows "\<exists>num' quo' brk.
     Div_body p d f num quo = Inr (num', quo', brk) \<and>
     div_rel p d f num' quo' \<and>
     (0 < Degree p \<longrightarrow> quo' ! (Degree p - Degree d) \<noteq> 0) \<and>
     (brk \<longrightarrow> (\<forall>k<length p. num' ! k = 0)) \<and>
     (\<not> brk \<longrightarrow> Degree num' < Degree num \<and>
        (\<forall>j<length quo'. j + Degree d \<le> Degree num' \<longrightarrow> quo' ! j = 0))"
proof -
  define M where "M = \<bar>f\<bar>"
  define ip where "ip = Degree num"
  define jd where "jd = Degree d"
  define j0 where "j0 = ip - jd"
  define L where "L = Suc (Degree p - jd)"
  have M: "0 < M" using f by (simp add: M_def)
  have len: "length num = Suc (Degree p)" "length quo = L"
    and rel2: "\<And>k. k \<le> Degree p \<Longrightarrow> num ! k mod M = (p ! k - conv quo d k) mod M"
    and numred: "\<And>k. k \<le> Degree p \<Longrightarrow> 0 \<le> num ! k \<and> num ! k < M"
    and quored: "\<And>j. j < L \<Longrightarrow> 0 \<le> quo ! j \<and> quo ! j < M"
    using rel p by (auto simp: div_rel_def M_def L_def jd_def less_Suc_eq_le)
  have ip: "ip \<le> Degree p" "jd \<le> ip"
    using Degree_le_length [of num] len enter by (simp_all add: ip_def jd_def)
  have j0: "j0 < L" "j0 + jd = ip" using ip by (simp_all add: j0_def L_def)
  obtain c where c: "Field_Div f (num ! ip) (d ! jd) = Inr c" "0 \<le> c" "c < M"
      "(d ! jd * c) mod M = num ! ip mod M"
    using Field_Div_ok [OF f d(2), of "num ! ip"] by (auto simp: jd_def M_def)
  define quo' where "quo' = quo[j0 := c]"
  have quo0: "quo ! j0 = 0" using low j0 len by (simp add: ip_def jd_def)
  have lenq': "length quo' = L" by (simp add: quo'_def len)
  have quored': "0 \<le> quo' ! j \<and> quo' ! j < M" if "j < L" for j
    using that quored [of j] c j0 len by (cases "j = j0") (simp_all add: quo'_def)
  have cnz: "c \<noteq> 0" if "0 < ip"
  proof
    assume "c = 0"
    then have "num ! ip mod M = 0" using c(4) by simp
    moreover have "num ! ip \<noteq> 0" using that Degree_nonzero [of num] by (simp add: ip_def)
    ultimately show False using numred [OF ip(1)] by simp
  qed
  have top': "quo' ! (Degree p - jd) \<noteq> 0" if pos: "0 < Degree p"
  proof (cases "ip = Degree p")
    case True
    then have "j0 = Degree p - jd" by (simp add: j0_def)
    then show ?thesis using cnz pos True j0 len by (simp add: quo'_def)
  next
    case False
    then have "ip < Degree p" using ip by simp
    then have "quo ! (Degree p - jd) \<noteq> 0" "j0 \<noteq> Degree p - jd"
      using top ip by (auto simp: ip_def jd_def j0_def)
    then show ?thesis by (simp add: quo'_def)
  qed
  have degq': "Degree quo' = Degree p - jd"
  proof (rule Degree_eqI)
    show "length quo' = Suc (Degree p - jd)" using lenq' by (simp add: L_def)
    show "Degree p - jd = 0 \<or> quo' ! (Degree p - jd) \<noteq> 0" using top' by auto
  qed
  define x where "x = map (\<lambda>k. conv d quo' k mod M) [0..<Suc (Degree p)]"
  have mul: "Mul d quo' f = Inr x"
    using Mul_ok [OF f d(1), of quo'] lenq' degq' ip
    by (simp add: x_def M_def L_def jd_def del: upt_Suc)
  have xtop: "Degree p = 0 \<or> x ! Degree p \<noteq> 0"
  proof (cases "Degree p = 0")
    case False
    then have nz: "quo' ! (Degree p - jd) \<noteq> 0" using top' by simp
    have "conv d quo' (jd + (Degree p - jd)) = d ! jd * quo' ! (Degree p - jd)"
      using d(1) lenq' by (intro conv_top) (simp_all add: jd_def L_def)
    then have "x ! Degree p = (d ! jd * quo' ! (Degree p - jd)) mod M"
      using ip by (simp add: x_def del: upt_Suc)
    moreover have "(d ! jd * quo' ! (Degree p - jd)) mod \<bar>f\<bar> \<noteq> 0"
      using d(2) nz quored' [of "Degree p - jd"]
      by (intro coprime_lead_product) (auto simp: jd_def L_def M_def)
    ultimately show ?thesis by (simp add: M_def)
  qed simp
  have degx: "Degree x = Degree p" "length x = Suc (Degree x)"
  proof -
    show "Degree x = Degree p" using xtop by (intro Degree_eqI) (simp_all add: x_def del: upt_Suc)
    then show "length x = Suc (Degree x)" by (simp add: x_def del: upt_Suc)
  qed
  define num' where "num' = map (\<lambda>k. (p ! k - x ! k) mod M) [0..<length p]"
  have sub: "Sub p x f = Inr num'"
    using Sub_ok [OF f p degx(2,1)] by (simp add: num'_def M_def)
  have num'_nth: "num' ! k = (p ! k - conv quo' d k) mod M" if "k \<le> Degree p" for k
    using that p by (simp add: num'_def x_def mod_diff_right_eq conv_commute del: upt_Suc)
  have lenn': "length num' = Suc (Degree p)" using p by (simp add: num'_def)
  have rel': "div_rel p d f num' quo'"
    using p lenn' lenq' num'_nth quored' M
    by (auto simp: div_rel_def L_def jd_def M_def less_Suc_eq_le)
  have zero_above: "num' ! k = 0" if k: "ip \<le> k" "k \<le> Degree p" for k
  proof -
    have "j0 \<le> k" using j0 k by simp
    then have "conv quo' d k = conv quo d k + c * coeff d (k - j0)"
      using conv_update [of j0 quo c d k] j0(1) len quo0 by (simp add: quo'_def)
    then have "num' ! k = ((p ! k - conv quo d k) - c * coeff d (k - j0)) mod M"
      using num'_nth [OF k(2)] by (simp add: algebra_simps)
    also have "\<dots> = (num ! k - c * coeff d (k - j0)) mod M"
      using rel2 [OF k(2)] by (intro mod_diff_cong) simp_all
    also have "\<dots> = 0"
    proof (cases "k = ip")
      case True
      then have "k - j0 = jd" using j0 by simp
      then have "coeff d (k - j0) = d ! jd" using d(1) by (simp add: coeff_def jd_def)
      then have "(num ! k - c * coeff d (k - j0)) mod M = (num ! ip mod M - (d ! jd * c) mod M) mod M"
        using True by (simp add: mod_diff_eq mult.commute)
      then show ?thesis using c(4) by simp
    next
      case False
      then have gt: "ip < k" using k by simp
      then have "num ! k = 0" using Degree_above [of num k] k len by (simp add: ip_def)
      moreover have "length d \<le> k - j0" using gt j0(2) d(1) unfolding jd_def by arith
      then have "coeff d (k - j0) = 0" by (simp add: coeff_def)
      ultimately show ?thesis by simp
    qed
    finally show ?thesis .
  qed
  define brk where "brk \<longleftrightarrow> Degree num' = 0 \<and> num' ! 0 = 0"
  have body: "Div_body p d f num quo = Inr (num', quo', brk)"
    using ip len lenn' d(1) c(1) j0 mul sub
    by (simp add: Div_body_def Let_def index_def store_def ip_def [symmetric] jd_def [symmetric]
        j0_def [symmetric] quo'_def [symmetric] brk_def)
  have brk_zero: "\<forall>k<length p. num' ! k = 0" if brk
  proof (intro allI impI)
    fix k assume "k < length p"
    then show "num' ! k = 0"
      using that Degree_above [of num' k] lenn' p by (cases "k = 0") (auto simp: brk_def)
  qed
  have nobrk: "Degree num' < Degree num \<and>
        (\<forall>j<length quo'. j + Degree d \<le> Degree num' \<longrightarrow> quo' ! j = 0)" if "\<not> brk"
  proof -
    have "0 < ip"
    proof (rule ccontr)
      assume "\<not> 0 < ip"
      then have z: "\<And>k. k < length num' \<Longrightarrow> num' ! k = 0" using zero_above lenn' by simp
      then have "Degree num' = 0" by (intro Degree_eq_0I) simp
      then show False using that z [of 0] lenn' by (simp add: brk_def)
    qed
    then have less: "Degree num' < ip"
      using zero_above lenn' by (intro Degree_lessI) simp_all
    have "quo' ! j = 0" if j: "j < length quo'" "j + Degree d \<le> Degree num'" for j
    proof -
      have "j \<noteq> j0" "j + Degree d \<le> Degree num" using j less j0 by (auto simp: jd_def ip_def)
      then show ?thesis using low j lenq' len by (simp add: quo'_def)
    qed
    then show ?thesis using less by (simp add: ip_def)
  qed
  show ?thesis
    using body rel' top' brk_zero nobrk by (auto simp: jd_def)
qed


lemma Div_loop_correct:
  assumes f: "f \<noteq> 0"
    and p: "length p = Suc (Degree p)"
    and d: "length d = Suc (Degree d)" "coprime (d ! Degree d) f" "Degree d \<le> Degree p"
  shows "div_rel p d f num quo \<Longrightarrow>
     \<forall>j<length quo. j + Degree d \<le> Degree num \<longrightarrow> quo ! j = 0 \<Longrightarrow>
     Degree num < Degree p \<longrightarrow> quo ! (Degree p - Degree d) \<noteq> 0 \<Longrightarrow>
     \<exists>q r. Div_loop p d f num quo = Some (Inr (q, r)) \<and> div_rel p d f r q \<and>
       (0 < Degree p \<longrightarrow> q ! (Degree p - Degree d) \<noteq> 0) \<and>
       (Degree r < Degree d \<or> (\<forall>k<length p. r ! k = 0))"
proof (induction "Degree num" arbitrary: num quo rule: less_induct)
  case less
  show ?case
  proof (cases "Degree d \<le> Degree num")
    case False
    then have "Div_loop p d f num quo = Some (Inr (quo, num))"
      by (simp add: Div_loop_skip)
    moreover have "0 < Degree p \<longrightarrow> quo ! (Degree p - Degree d) \<noteq> 0"
      using False less.prems(3) d(3) by simp
    ultimately show ?thesis using less.prems(1) False by auto
  next
    case True
    from Div_body_step [OF f p d(1,2) less.prems True]
    obtain num' quo' brk where step:
      "Div_body p d f num quo = Inr (num', quo', brk)"
      "div_rel p d f num' quo'"
      "0 < Degree p \<longrightarrow> quo' ! (Degree p - Degree d) \<noteq> 0"
      "brk \<longrightarrow> (\<forall>k<length p. num' ! k = 0)"
      "\<not> brk \<longrightarrow> Degree num' < Degree num \<and>
        (\<forall>j<length quo'. j + Degree d \<le> Degree num' \<longrightarrow> quo' ! j = 0)"
      by auto
    show ?thesis
    proof (cases brk)
      case True
      have "Div_loop p d f num quo = Some (Inr (quo', num'))"
        using \<open>Degree d \<le> Degree num\<close> step(1) True by (subst Div_loop.simps) simp
      then show ?thesis using step True by auto
    next
      case False
      have unfold: "Div_loop p d f num quo = Div_loop p d f num' quo'"
        using \<open>Degree d \<le> Degree num\<close> step(1) False by (subst Div_loop.simps) simp
      have "\<exists>q r. Div_loop p d f num' quo' = Some (Inr (q, r)) \<and> div_rel p d f r q \<and>
         (0 < Degree p \<longrightarrow> q ! (Degree p - Degree d) \<noteq> 0) \<and>
         (Degree r < Degree d \<or> (\<forall>k<length p. r ! k = 0))"
        using step False by (intro less.hyps) auto
      then show ?thesis unfolding unfold .
    qed
  qed
qed

text \<open>
  From the initial state of \<open>Div\<close>: the clone of a dividend without slots beyond its
  degree and a quotient of zeros.
\<close>

lemma Div_canonical:
  assumes f: "f \<noteq> 0"
    and p: "length p = Suc (Degree p)" "\<forall>c\<in>set p. 0 \<le> c \<and> c < \<bar>f\<bar>"
    and d: "length d = Suc (Degree d)" "coprime (d ! Degree d) f" "Degree d \<le> Degree p"
  shows "\<exists>q r. Div p d f = Some (Inr (q, r)) \<and> div_rel p d f r q \<and>
           (0 < Degree p \<longrightarrow> q ! (Degree p - Degree d) \<noteq> 0) \<and>
           (Degree r < Degree d \<or> (\<forall>k<length p. r ! k = 0))"
proof -
  define L where "L = Suc (Degree p - Degree d)"
  let ?z = "replicate L (0::int)"
  have pne: "p \<noteq> []" using p(1) by auto
  have clone: "Clone p = Inr p" using p(1) pne by (simp add: Clone_ok)
  have "int (Degree p) - int (Degree d) = int (Degree p - Degree d)" using d(3) by simp
  then have alloc: "NewZeroPolynomial (int (Degree p) - int (Degree d)) = Inr ?z"
    by (simp add: L_def del: of_nat_diff replicate.simps)
  have div: "Div p d f = Div_loop p d f p ?z"
    using clone alloc by (simp add: Div_def del: replicate.simps)
  have rel0: "div_rel p d f p ?z"
    using f p(2) by (auto simp: div_rel_def L_def conv_commute [of _ d] conv_zeros simp del: replicate.simps)
  have low0: "\<forall>j<length ?z. j + Degree d \<le> Degree p \<longrightarrow> ?z ! j = 0"
    by (simp del: replicate.simps)
  show ?thesis
    unfolding div using Div_loop_correct [OF f p(1) d rel0 low0] by simp
qed

section \<open>Powers, Horner's rule and the evaluation on encoded powers\<close>

lemma ComputePowers_loop_ok:
  assumes "f \<noteq> 0"
  shows "ComputePowers_loop f x k xs =
         Inr (xs @ map (\<lambda>i. (last xs * x ^ Suc i) mod \<bar>f\<bar>) [0..<k])"
proof (induction k arbitrary: xs)
  case 0
  then show ?case by simp
next
  case (Suc k)
  let ?v = "(last xs * x) mod \<bar>f\<bar>"
  have "ComputePowers_loop f x (Suc k) xs = ComputePowers_loop f x k (xs @ [?v])"
    using assms by (simp add: Field_Mul_def)
  also have "\<dots> = Inr ((xs @ [?v]) @ map (\<lambda>i. (?v * x ^ Suc i) mod \<bar>f\<bar>) [0..<k])"
    using Suc.IH [of "xs @ [?v]"] by simp
  also have "map (\<lambda>i. (?v * x ^ Suc i) mod \<bar>f\<bar>) [0..<k] =
             map (\<lambda>i. (last xs * x ^ Suc (Suc i)) mod \<bar>f\<bar>) [0..<k]"
    by (simp add: mod_mult_left_eq mult.assoc)
  finally show ?case by (simp add: map_upt_Suc del: upt_Suc)
qed

lemma ComputePowers_ok:
  assumes "f \<noteq> 0" "0 < n"
  shows "\<exists>pw. ComputePowers x (int n) f = Inr pw \<and> length pw = n \<and>
           (\<forall>t<n. pw ! t mod \<bar>f\<bar> = x ^ t mod \<bar>f\<bar>)"
proof -
  let ?pw = "[1] @ map (\<lambda>i. (last [1] * x ^ Suc i) mod \<bar>f\<bar>) [0..<n - 1]"
  have "ComputePowers x (int n) f = Inr ?pw"
    using assms ComputePowers_loop_ok [OF assms(1), of x "n - 1" "[1]"]
    by (simp add: ComputePowers_def nat_diff_distrib')
  moreover have "length ?pw = n" using assms(2) by simp
  moreover have "?pw ! t mod \<bar>f\<bar> = x ^ t mod \<bar>f\<bar>" if "t < n" for t
  proof (cases t)
    case 0
    then show ?thesis by simp
  next
    case (Suc u)
    then have "u < n - 1" using that by simp
    then show ?thesis using Suc by simp
  qed
  ultimately show ?thesis by blast
qed

lemma Evaluate_loop_ok:
  assumes "f \<noteq> 0"
  shows "\<exists>y'. Evaluate_loop f x p i y = Inr y' \<and>
           y' mod \<bar>f\<bar> = (y * x ^ i + (\<Sum>t<i. p ! Suc t * x ^ Suc t)) mod \<bar>f\<bar>"
proof (induction i arbitrary: y)
  case 0
  then show ?case by simp
next
  case (Suc i)
  let ?y2 = "(((y + p ! Suc i) mod \<bar>f\<bar>) * x) mod \<bar>f\<bar>"
  obtain y' where y': "Evaluate_loop f x p i ?y2 = Inr y'"
     "y' mod \<bar>f\<bar> = (?y2 * x ^ i + (\<Sum>t<i. p ! Suc t * x ^ Suc t)) mod \<bar>f\<bar>"
    using Suc.IH [of ?y2] by blast
  have "?y2 mod \<bar>f\<bar> = ((y + p ! Suc i) * x) mod \<bar>f\<bar>"
    by (simp add: mod_mult_left_eq)
  then have "(?y2 * x ^ i) mod \<bar>f\<bar> = ((y + p ! Suc i) * x * x ^ i) mod \<bar>f\<bar>"
    by (rule mod_mult_cong) (rule refl)
  then have "(?y2 * x ^ i + (\<Sum>t<i. p ! Suc t * x ^ Suc t)) mod \<bar>f\<bar> =
        ((y + p ! Suc i) * x * x ^ i + (\<Sum>t<i. p ! Suc t * x ^ Suc t)) mod \<bar>f\<bar>"
    by (rule mod_add_cong) (rule refl)
  also have "\<dots> = (y * x ^ Suc i + (\<Sum>t<Suc i. p ! Suc t * x ^ Suc t)) mod \<bar>f\<bar>"
    by (simp add: algebra_simps)
  finally have "y' mod \<bar>f\<bar> = (y * x ^ Suc i + (\<Sum>t<Suc i. p ! Suc t * x ^ Suc t)) mod \<bar>f\<bar>"
    using y'(2) by simp
  moreover have "Evaluate_loop f x p (Suc i) y = Inr y'"
    using assms y'(1) by (simp add: Field_Add_def Field_Mul_def)
  ultimately show ?case by blast
qed

lemma Evaluate_ok:
  assumes "f \<noteq> 0" "p \<noteq> []"
  shows "Evaluate p x f = Inr ((\<Sum>t<length p. p ! t * x ^ t) mod \<bar>f\<bar>)"
proof -
  obtain y' where y': "Evaluate_loop f x p (length p - 1) 0 = Inr y'"
     "y' mod \<bar>f\<bar> = (0 * x ^ (length p - 1) + (\<Sum>t<length p - 1. p ! Suc t * x ^ Suc t)) mod \<bar>f\<bar>"
    using Evaluate_loop_ok [OF assms(1), of x p "length p - 1" 0] by blast
  have "(\<Sum>t<Suc (length p - 1). p ! t * x ^ t) =
        p ! 0 * x ^ 0 + (\<Sum>t<length p - 1. p ! Suc t * x ^ Suc t)"
    by (rule sum.lessThan_Suc_shift)
  then have s: "(\<Sum>t<length p. p ! t * x ^ t) = p ! 0 + (\<Sum>t<length p - 1. p ! Suc t * x ^ Suc t)"
    using assms(2) by simp
  have "Evaluate p x f = Inr ((y' + p ! 0) mod \<bar>f\<bar>)"
    using assms y'(1) by (simp add: Evaluate_def index_def Field_Add_def)
  also have "(y' + p ! 0) mod \<bar>f\<bar> = (y' mod \<bar>f\<bar> + p ! 0) mod \<bar>f\<bar>"
    by (simp add: mod_add_left_eq)
  also have "\<dots> = (\<Sum>t<length p. p ! t * x ^ t) mod \<bar>f\<bar>"
    unfolding y'(2) s by (simp add: mod_add_left_eq mod_add_right_eq add.commute)
  finally show ?thesis .
qed

lemma EvaluateOnPowers_loop_ok:
  assumes add_sbase: "\<And>a b. add (sbase a) (sbase b) = sbase (a + b)"
    and smul_sbase: "\<And>a k. smul (sbase a) k = sbase (a * k)"
  shows "EvaluateOnPowers_loop add smul p i (map sbase ws) (sbase acc) =
         sbase (acc + (\<Sum>t<length ws. ws ! t * p ! (i + t)))"
proof (induction ws arbitrary: i acc)
  case Nil
  then show ?case by simp
next
  case (Cons w ws)
  have "(\<Sum>t<Suc (length ws). (w # ws) ! t * p ! (i + t)) =
        (w # ws) ! 0 * p ! (i + 0) + (\<Sum>t<length ws. (w # ws) ! Suc t * p ! (i + Suc t))"
    by (rule sum.lessThan_Suc_shift)
  then show ?case
    using Cons.IH [of "Suc i" "acc + w * p ! i"]
    by (simp add: add_sbase smul_sbase add.assoc del: sum.lessThan_Suc)
qed

section \<open>Evaluation of sums and products\<close>

text \<open>
  For operands that \<open>Add\<close> and \<open>Mul\<close> accept, \<open>Evaluate\<close> commutes with them.
\<close>

lemma sum_coeff:
  assumes "length p \<le> n"
  shows "(\<Sum>t<n. coeff p t * x ^ t) = (\<Sum>t<length p. p ! t * x ^ t)"
proof -
  have "(\<Sum>t<n. coeff p t * x ^ t) = (\<Sum>t<length p. coeff p t * x ^ t)"
    using assms by (intro sum.mono_neutral_right) (auto simp: coeff_def)
  also have "\<dots> = (\<Sum>t<length p. p ! t * x ^ t)"
    by (intro sum.cong) (auto simp: coeff_def)
  finally show ?thesis .
qed

lemma sum_row:
  assumes "i + length q \<le> n"
  shows "(\<Sum>k<n. (if i \<le> k then a * coeff q (k - i) else 0) * x ^ k) =
         a * x ^ i * (\<Sum>j<length q. q ! j * x ^ j)"
proof -
  have "(\<Sum>k<n. (if i \<le> k then a * coeff q (k - i) else 0) * x ^ k) =
        (\<Sum>k\<in>{i..<n}. a * coeff q (k - i) * x ^ k)"
    by (intro sum.mono_neutral_cong_right) auto
  also have "\<dots> = (\<Sum>k\<in>{0 + i..<(n - i) + i}. a * coeff q (k - i) * x ^ k)"
    using assms by simp
  also have "\<dots> = (\<Sum>k\<in>{0..<n - i}. a * coeff q (k + i - i) * x ^ (k + i))"
    by (rule sum.shift_bounds_nat_ivl)
  also have "\<dots> = a * x ^ i * (\<Sum>k<n - i. coeff q k * x ^ k)"
    by (simp add: sum_distrib_left power_add mult_ac atLeast0LessThan)
  also have "(\<Sum>k<n - i. coeff q k * x ^ k) = (\<Sum>j<length q. q ! j * x ^ j)"
    using assms by (intro sum_coeff) simp
  finally show ?thesis .
qed

lemma sum_rows:
  assumes "i + length as + length q \<le> Suc n"
  shows "(\<Sum>k<n. rows i as q k * x ^ k) =
         x ^ i * (\<Sum>t<length as. as ! t * x ^ t) * (\<Sum>j<length q. q ! j * x ^ j)"
  using assms
proof (induction as arbitrary: i)
  case Nil
  then show ?case by simp
next
  case (Cons a as)
  let ?Q = "\<Sum>j<length q. q ! j * x ^ j"
  have row: "(\<Sum>k<n. (if i \<le> k then a * coeff q (k - i) else 0) * x ^ k) = a * x ^ i * ?Q"
    using Cons.prems by (intro sum_row) simp
  have rest: "(\<Sum>k<n. rows (Suc i) as q k * x ^ k) =
              x ^ Suc i * (\<Sum>t<length as. as ! t * x ^ t) * ?Q"
    using Cons.prems by (intro Cons.IH) simp
  have "(\<Sum>t<Suc (length as). (a # as) ! t * x ^ t) =
        (a # as) ! 0 * x ^ 0 + (\<Sum>t<length as. (a # as) ! Suc t * x ^ Suc t)"
    by (rule sum.lessThan_Suc_shift)
  then have split: "(\<Sum>t<length (a # as). (a # as) ! t * x ^ t) =
        a + x * (\<Sum>t<length as. as ! t * x ^ t)"
    by (simp add: sum_distrib_left mult_ac del: sum.lessThan_Suc)
  have "(\<Sum>k<n. rows i (a # as) q k * x ^ k) =
        (\<Sum>k<n. (if i \<le> k then a * coeff q (k - i) else 0) * x ^ k) +
        (\<Sum>k<n. rows (Suc i) as q k * x ^ k)"
    by (simp add: sum.distrib distrib_right)
  also have "\<dots> = x ^ i * (a + x * (\<Sum>t<length as. as ! t * x ^ t)) * ?Q"
    unfolding row rest by (simp add: algebra_simps)
  finally show ?case unfolding split .
qed

lemma sum_conv:
  assumes "length p + length q \<le> Suc n"
  shows "(\<Sum>k<n. conv p q k * x ^ k) =
         (\<Sum>t<length p. p ! t * x ^ t) * (\<Sum>j<length q. q ! j * x ^ j)"
  using sum_rows [of 0 p q n x] assms by (simp add: rows_conv)

lemma sum_mod_coeffs:
  "(\<Sum>k<n. (g k mod M) * x ^ k) mod M = (\<Sum>k<n. g k * x ^ k) mod (M::int)"
proof -
  have "(\<Sum>k<n. (g k mod M) * x ^ k) mod M = (\<Sum>k<n. ((g k mod M) * x ^ k) mod M) mod M"
    by (simp add: mod_sum_eq)
  also have "(\<Sum>k<n. ((g k mod M) * x ^ k) mod M) = (\<Sum>k<n. (g k * x ^ k) mod M)"
    by (simp add: mod_mult_left_eq)
  also have "(\<Sum>k<n. (g k * x ^ k) mod M) mod M = (\<Sum>k<n. g k * x ^ k) mod M"
    by (simp add: mod_sum_eq)
  finally show ?thesis .
qed

lemma Evaluate_map:
  assumes "f \<noteq> 0"
  shows "Evaluate (map (\<lambda>k. g k mod \<bar>f\<bar>) [0..<Suc n]) x f =
         Inr ((\<Sum>k<Suc n. g k * x ^ k) mod \<bar>f\<bar>)"
proof -
  let ?r = "map (\<lambda>k. g k mod \<bar>f\<bar>) [0..<Suc n]"
  have "Evaluate ?r x f = Inr ((\<Sum>t<length ?r. ?r ! t * x ^ t) mod \<bar>f\<bar>)"
    using assms by (intro Evaluate_ok) simp_all
  also have "(\<Sum>t<length ?r. ?r ! t * x ^ t) = (\<Sum>t<Suc n. (g t mod \<bar>f\<bar>) * x ^ t)"
    by (intro sum.cong) (simp_all del: upt_Suc)
  finally show ?thesis by (simp only: sum_mod_coeffs)
qed

lemma Evaluate_Add:
  assumes f: "f \<noteq> 0" and ne: "p \<noteq> []" "q \<noteq> []"
    and len: "length p \<le> Suc (max (Degree p) (Degree q))"
             "length q \<le> Suc (max (Degree p) (Degree q))"
  shows "\<exists>r a b. Add p q f = Inr r \<and> Evaluate p x f = Inr a \<and> Evaluate q x f = Inr b \<and>
           Evaluate r x f = Field_Add f a b"
proof -
  let ?n = "max (Degree p) (Degree q)"
  let ?P = "\<Sum>t<length p. p ! t * x ^ t" and ?Q = "\<Sum>t<length q. q ! t * x ^ t"
  let ?r = "map (\<lambda>k. (coeff p k + coeff q k) mod \<bar>f\<bar>) [0..<Suc ?n]"
  have add: "Add p q f = Inr ?r" using f len by (rule Add_ok)
  have "(\<Sum>k<Suc ?n. (coeff p k + coeff q k) * x ^ k) =
        (\<Sum>k<Suc ?n. coeff p k * x ^ k) + (\<Sum>k<Suc ?n. coeff q k * x ^ k)"
    by (simp add: distrib_right sum.distrib del: sum.lessThan_Suc)
  also have "\<dots> = ?P + ?Q"
    using len by (simp only: sum_coeff)
  finally have "Evaluate ?r x f = Inr ((?P + ?Q) mod \<bar>f\<bar>)"
    using Evaluate_map [OF f, of "\<lambda>k. coeff p k + coeff q k" ?n x] by simp
  moreover have "Field_Add f (?P mod \<bar>f\<bar>) (?Q mod \<bar>f\<bar>) = Inr ((?P + ?Q) mod \<bar>f\<bar>)"
    using f by (simp add: Field_Add_def mod_add_eq)
  ultimately show ?thesis
    using add Evaluate_ok [OF f ne(1), of x] Evaluate_ok [OF f ne(2), of x] by simp
qed

lemma Evaluate_Mul:
  assumes f: "f \<noteq> 0" and len: "length p = Suc (Degree p)" "length q = Suc (Degree q)"
  shows "\<exists>r a b. Mul p q f = Inr r \<and> Evaluate p x f = Inr a \<and> Evaluate q x f = Inr b \<and>
           Evaluate r x f = Field_Mul f a b"
proof -
  let ?n = "Degree p + Degree q"
  let ?P = "\<Sum>t<length p. p ! t * x ^ t" and ?Q = "\<Sum>t<length q. q ! t * x ^ t"
  let ?r = "map (\<lambda>k. conv p q k mod \<bar>f\<bar>) [0..<Suc ?n]"
  have ne: "p \<noteq> []" "q \<noteq> []" using len by auto
  have mul: "Mul p q f = Inr ?r" using f len by (rule Mul_ok)
  have "(\<Sum>k<Suc ?n. conv p q k * x ^ k) = ?P * ?Q"
    using len by (intro sum_conv) simp
  then have "Evaluate ?r x f = Inr ((?P * ?Q) mod \<bar>f\<bar>)"
    using Evaluate_map [OF f, of "\<lambda>k. conv p q k" ?n x] by simp
  moreover have "Field_Mul f (?P mod \<bar>f\<bar>) (?Q mod \<bar>f\<bar>) = Inr ((?P * ?Q) mod \<bar>f\<bar>)"
    using f by (simp add: Field_Mul_def mod_mult_eq)
  ultimately show ?thesis
    using mul Evaluate_ok [OF f ne(1), of x] Evaluate_ok [OF f ne(2), of x] by simp
qed

section \<open>The quotient by a linear factor\<close>

text \<open>
  For a polynomial without slots beyond its degree and with reduced coefficients,
  \<open>getQuotient\<close> at the evaluation \<open>y\<close> of \<open>p\<close> in \<open>z\<close> returns a quotient: the
  remainder of the division by \<open>v - z\<close> is zero. An error is returned exactly when
  \<open>Div\<close> returns a remainder that \<open>Eq\<close> tells from the zero polynomial.
\<close>

lemma Eq_ZeroPolynomial:
  assumes "r \<noteq> []" "\<forall>k<length r. r ! k = 0"
  shows "Eq r ZeroPolynomial = Inr True"
proof -
  have "Degree r = 0" using assms(2) by (intro Degree_eq_0I) simp
  then show ?thesis using assms
    by (simp add: Eq_def ZeroPolynomial_def index_def)
qed

lemma getQuotient_ok:
  assumes f: "f \<noteq> 0"
    and p: "length p = Suc (Degree p)" "\<forall>c\<in>set p. 0 \<le> c \<and> c < \<bar>f\<bar>"
    and y: "Evaluate p z f = Inr y"
  shows "\<exists>q. getQuotient p z y f = Some (Inr (Inr q))"
proof -
  define M where "M = \<bar>f\<bar>"
  define N where "N = Suc (Degree p)"
  let ?P = "\<Sum>t<length p. p ! t * z ^ t"
  have M: "0 < M" using f by (simp add: M_def)
  have pne: "p \<noteq> []" using p(1) by auto
  have yP: "y = ?P mod M" using y Evaluate_ok [OF f pne, of z] by (simp add: M_def)
  define py where "py = map (\<lambda>k. (coeff p k + coeff [- y] k) mod M) [0..<N]"
  have mx: "max (Degree p) (Degree [- y]) = Degree p" by simp
  have add: "Add p [- y] f = Inr py"
    using Add_ok [of f p "[- y]"] f p(1) by (simp add: py_def M_def N_def del: upt_Suc)
  have lenpy: "length py = N" by (simp add: py_def)
  have pyred: "\<forall>c\<in>set py. 0 \<le> c \<and> c < \<bar>f\<bar>" using M by (auto simp: py_def M_def)
  have pred: "0 \<le> p ! k \<and> p ! k < M" if "k < N" for k
    using p that by (simp add: N_def M_def)
  have py_hi: "py ! k = p ! k" if "0 < k" "k < N" for k
    using that p(1) pred [of k] by (simp add: py_def coeff_def N_def del: upt_Suc)
  have evpy: "(\<Sum>k<N. py ! k * z ^ k) mod M = 0"
  proof -
    have ne: "[- y] \<noteq> []" by simp
    have e1: "Evaluate [- y] z f = Inr ((- y) mod M)"
      using Evaluate_ok [OF f ne, of z] by (simp add: M_def)
    from Evaluate_Add [OF f pne ne, of z] p(1) add y e1
    have "Evaluate py z f = Field_Add f y ((- y) mod M)" by auto
    also have "\<dots> = Inr 0" using f by (simp add: Field_Add_def M_def mod_add_right_eq)
    finally have "Evaluate py z f = Inr 0" .
    moreover have "py \<noteq> []" using lenpy by (auto simp: N_def)
    ultimately show ?thesis
      using Evaluate_ok [OF f, of py z] lenpy by (simp add: M_def)
  qed
  show ?thesis
  proof (cases "Degree p = 0")
    case True
    then have "py = [(p ! 0 - y) mod M]" using p(1) by (simp add: py_def N_def coeff_def)
    moreover have "(p ! 0 - y) mod M = 0"
      using evpy True lenpy \<open>py = [(p ! 0 - y) mod M]\<close> by (simp add: N_def)
    ultimately have py0: "py = [0]" by simp
    have "Div [0] [- z, 1] f = Some (Inr ([], [0]))"
      by (simp add: Div_def Clone_ok NewZeroPolynomial_def Div_loop_skip Degree_def)
    then show ?thesis
      using add py0 by (simp add: getQuotient_def Eq_ZeroPolynomial)
  next
    case False
    then have pos: "0 < Degree p" by simp
    let ?d = "[- z, 1]"
    have degd: "Degree ?d = 1" by (simp add: Degree_def)
    have "py ! Degree p = p ! Degree p" using pos by (intro py_hi) (simp_all add: N_def)
    then have "py ! Degree p \<noteq> 0" using Degree_nonzero [OF pos] by simp
    then have degpy: "Degree py = Degree p"
      using lenpy by (intro Degree_eqI) (simp_all add: N_def)
    have "\<exists>q r. Div py ?d f = Some (Inr (q, r)) \<and> div_rel py ?d f r q \<and>
           (0 < Degree py \<longrightarrow> q ! (Degree py - Degree ?d) \<noteq> 0) \<and>
           (Degree r < Degree ?d \<or> (\<forall>k<length py. r ! k = 0))"
      using f pyred lenpy degpy pos
      by (intro Div_canonical) (simp_all add: degd N_def)
    then obtain q r where qr: "Div py ?d f = Some (Inr (q, r))" "div_rel py ?d f r q"
      "Degree r < Degree ?d \<or> (\<forall>k<length py. r ! k = 0)"
      by auto
    have lenr: "length r = N" and lenq: "length q = Degree p"
      and rel: "\<And>k. k < N \<Longrightarrow> r ! k mod M = (py ! k - conv q ?d k) mod M"
      and rred: "\<And>k. k < N \<Longrightarrow> 0 \<le> r ! k \<and> r ! k < M"
      using qr(2) lenpy degpy pos by (auto simp: div_rel_def M_def degd)
    have rhi: "r ! k = 0" if "0 < k" "k < N" for k
      using qr(3)
    proof
      assume "Degree r < Degree ?d"
      then have "Degree r < k" using that degd by simp
      then show ?thesis using Degree_above [of r k] that lenr by simp
    next
      assume "\<forall>k<length py. r ! k = 0"
      then show ?thesis using that lenpy by simp
    qed
    have "(\<Sum>k<N. r ! k * z ^ k) = (\<Sum>k<N. if k = 0 then r ! 0 else 0)"
      using rhi by (intro sum.cong) auto
    also have "\<dots> = r ! 0" by (simp add: N_def)
    finally have R: "(\<Sum>k<N. r ! k * z ^ k) = r ! 0" .
    have "(\<Sum>k<N. conv q ?d k * z ^ k) =
          (\<Sum>t<length q. q ! t * z ^ t) * (\<Sum>j<length ?d. ?d ! j * z ^ j)"
      using lenq by (intro sum_conv) (simp add: N_def)
    also have "(\<Sum>j<length ?d. ?d ! j * z ^ j) = 0" by simp
    finally have QD: "(\<Sum>k<N. conv q ?d k * z ^ k) = 0" by simp
    have "r ! 0 mod M = (\<Sum>k<N. (r ! k mod M) * z ^ k) mod M"
      using R by (simp only: sum_mod_coeffs)
    also have "(\<Sum>k<N. (r ! k mod M) * z ^ k) = (\<Sum>k<N. ((py ! k - conv q ?d k) mod M) * z ^ k)"
      using rel by (intro sum.cong) simp_all
    also have "\<dots> mod M = (\<Sum>k<N. (py ! k - conv q ?d k) * z ^ k) mod M"
      by (simp only: sum_mod_coeffs)
    also have "(\<Sum>k<N. (py ! k - conv q ?d k) * z ^ k) =
               (\<Sum>k<N. py ! k * z ^ k) - (\<Sum>k<N. conv q ?d k * z ^ k)"
      by (simp add: left_diff_distrib sum_subtractf del: sum.lessThan_Suc)
    finally have "r ! 0 mod M = 0" using evpy QD by simp
    then have r0: "r ! 0 = 0" using rred [of 0] by (simp add: N_def)
    have "\<forall>k<length r. r ! k = 0"
    proof (intro allI impI)
      fix k assume "k < length r"
      then show "r ! k = 0" using rhi [of k] r0 lenr by (cases "k = 0") simp_all
    qed
    moreover have "r \<noteq> []" using lenr by (auto simp: N_def)
    ultimately have "Eq r ZeroPolynomial = Inr True" by (intro Eq_ZeroPolynomial)
    then show ?thesis using add qr(1) by (simp add: getQuotient_def)
  qed
qed

text \<open>
  The remainder that \<open>Div\<close> returns is never empty, and \<open>Eq\<close> tells a nonempty
  polynomial from the zero polynomial exactly when one of its coefficients is not zero.
\<close>

lemma Add_loop_length:
  "Add_loop f i vs result = Inr r \<Longrightarrow> length r = length result"
proof (induction vs arbitrary: i result)
  case Nil
  then show ?case by simp
next
  case (Cons v vs)
  then show ?case
    by (auto simp: index_def store_def split: if_splits sum.splits)
qed

lemma Add_nonempty: "Add p x f = Inr r \<Longrightarrow> r \<noteq> []"
proof -
  assume a: "Add p x f = Inr r"
  let ?z = "replicate (Suc (max (Degree p) (Degree x))) (0::int)"
  have alloc: "(if Degree p > Degree x then NewZeroPolynomial (int (Degree p))
            else NewZeroPolynomial (int (Degree x))) = Inr ?z"
    by (auto simp: max_def)
  from a obtain r1 where "Add_loop f 0 p ?z = Inr r1" "Add_loop f 0 x r1 = Inr r"
    unfolding Add_def alloc by (auto split: sum.splits)
  then have "length r = length ?z" by (simp add: Add_loop_length del: replicate.simps)
  then show ?thesis by auto
qed

lemma Div_body_nonempty:
  "Div_body p d f num quo = Inr (num', quo', brk) \<Longrightarrow> num' \<noteq> []"
  by (auto simp: Div_body_def Let_def Sub_def split: sum.splits if_splits dest: Add_nonempty)

lemma Div_loop_nonempty_aux:
  assumes "Div_loop p d f num quo = Some y"
  shows "num \<noteq> [] \<longrightarrow> (\<forall>q r. y = Inr (q, r) \<longrightarrow> r \<noteq> [])"
  using assms
proof (induction rule: Div_loop.raw_induct [rotated -1, consumes 1, case_names step])
  case (step loop p d f num quo y)
  show ?case
  proof (intro impI allI)
    fix q r assume ne: "num \<noteq> []" and y: "y = Inr (q, r)"
    show "r \<noteq> []"
    proof (cases "Degree d \<le> Degree num")
      case False
      then show ?thesis using step(2) ne y by simp
    next
      case True
      then obtain num' quo' brk where b: "Div_body p d f num quo = Inr (num', quo', brk)"
        using step(2) y by (auto split: sum.splits)
      then have n': "num' \<noteq> []" by (rule Div_body_nonempty)
      show ?thesis
      proof (cases brk)
        case True
        then show ?thesis using step(2) \<open>Degree d \<le> Degree num\<close> b y n' by simp
      next
        case False
        then have "loop p d f num' quo' = Some y"
          using step(2) \<open>Degree d \<le> Degree num\<close> b by simp
        from step(1) [OF this] n' y show ?thesis by simp
      qed
    qed
  qed
qed

lemma Div_loop_nonempty:
  "Div_loop p d f num quo = Some (Inr (q, r)) \<Longrightarrow> num \<noteq> [] \<Longrightarrow> r \<noteq> []"
  using Div_loop_nonempty_aux by blast

lemma Div_nonempty: "Div p d f = Some (Inr (q, r)) \<Longrightarrow> r \<noteq> []"
  using Clone_cases [of p]
  by (auto simp: Div_def split: sum.splits dest: Div_loop_nonempty)

lemma Eq_ZeroPolynomial_iff:
  assumes "r \<noteq> []"
  shows "Eq r ZeroPolynomial = Inr (\<forall>k<length r. r ! k = 0)"
proof (cases "Degree r = 0")
  case True
  have "(\<forall>k<length r. r ! k = 0) \<longleftrightarrow> r ! 0 = 0"
  proof
    assume "\<forall>k<length r. r ! k = 0"
    then show "r ! 0 = 0" using assms by simp
  next
    assume z: "r ! 0 = 0"
    show "\<forall>k<length r. r ! k = 0"
    proof (intro allI impI)
      fix k assume "k < length r"
      then show "r ! k = 0" using z True Degree_above [of r k] by (cases "k = 0") simp_all
    qed
  qed
  then show ?thesis using True assms
    by (simp add: Eq_def ZeroPolynomial_def index_def)
next
  case False
  then have "r ! Degree r \<noteq> 0" "Degree r < length r"
    using Degree_nonzero [of r] Degree_lt_length [OF assms] by simp_all
  then have "\<not> (\<forall>k<length r. r ! k = 0)" by blast
  then show ?thesis using False by (simp add: Eq_def ZeroPolynomial_def)
qed

lemma getQuotient_error_iff:
  "getQuotient p x y f = Some (Inr (Inl e)) \<longleftrightarrow>
   (\<exists>py q r. Add p [- y] f = Inr py \<and> Div py [- x, 1] f = Some (Inr (q, r)) \<and>
      (\<exists>k<length r. r ! k \<noteq> 0) \<and> e = RestNotZero r)"
proof -
  have "getQuotient p x y f = Some (Inr (Inl e)) \<longleftrightarrow>
   (\<exists>py q r. Add p [- y] f = Inr py \<and> Div py [- x, 1] f = Some (Inr (q, r)) \<and>
      Eq r ZeroPolynomial = Inr False \<and> e = RestNotZero r)"
    by (auto simp: getQuotient_def split: sum.splits option.splits prod.splits if_splits)
  also have "\<dots> \<longleftrightarrow>
   (\<exists>py q r. Add p [- y] f = Inr py \<and> Div py [- x, 1] f = Some (Inr (q, r)) \<and>
      (\<exists>k<length r. r ! k \<noteq> 0) \<and> e = RestNotZero r)"
    using Div_nonempty by (auto simp: Eq_ZeroPolynomial_iff)
  finally show ?thesis .
qed

section \<open>The test vectors of the repository\<close>

text \<open>
  The cases of \<open>TestMul\<close>, \<open>TestSub\<close>, \<open>TestDiv\<close> and \<open>TestEvaluate\<close> with small
  moduli, run on the model. The tests compare with \<open>Eq\<close>, which ignores slots beyond
  the degree.
\<close>

lemma TestMul:
  "Mul [1, 1, 1] [1, 1] 2 = Inr [1, 0, 0, 1]"
  "Mul [0, 1, 2] [10, 2, 0, 3] 100000000000000000 = Inr [0, 10, 22, 4, 3, 6]"
  "Mul [1, 2, 3] [- 1] 10 = Inr [9, 8, 7]"
  by code_simp+

lemma TestSub:
  "Sub [0, 1, 2] [0, 1] 100 = Inr [0, 0, 2]"
  "Sub [0, 1, 2] [0, 1, 2] 100 = Inr [0, 0, 0] \<and> Eq [0, 0, 0] [0] = Inr True"
  "Sub [0, 1] [0, 2] 100 = Inr [0, 99]"
  by code_simp+

lemma TestDiv:
  "Div [1, 0, 0, 1] [1, 1] 100 = Some (Inr ([1, 99, 1], [0, 0, 0, 0])) \<and>
   Eq [0, 0, 0, 0] [0] = Inr True"
  "Div [1, 0, 1] [1, 1] 100 = Some (Inr ([99, 1], [2, 0, 0])) \<and> Eq [2, 0, 0] [2] = Inr True"
  "Div [6, 4, 5] [1, 2] 7 = Some (Inr ([6, 6], [0, 0, 0]))"
  "Div [6, 4, 5] [1] 7 = Some (Inr ([6, 4, 5], [0, 0, 0]))"
  "Div [2] [2] 7 = Some (Inr ([1], [0]))"
  by code_simp+

lemma TestEvaluate:
  "Evaluate [0, 1, 2] 1 100 = Inr 3"
  "Evaluate [0, 1, 2] 1 2 = Inr 1"
  "Evaluate [0, 2, 3] 2 10 = Inr 6"
  by code_simp+

section \<open>The root of unity\<close>

text \<open>The test of the remainder as the code has it: \<open>1\<close> is returned when \<open>n\<close> divides.\<close>

lemma RootOfUnity_returns_one_when_divides:
  "n mod 2 \<noteq> 1 \<Longrightarrow> uint n \<noteq> 0 \<Longrightarrow> (f - 1) mod uint n = 0 \<Longrightarrow>
   RootOfUnity f r n primitive = Inr (Inr (Some 1))"
  by (simp add: RootOfUnity_def)

text \<open>
  Claim C3. For every even \<open>n > 0\<close>, \<open>RootOfUnity\<close> is to return \<open>1\<close> directly when
  \<open>n\<close> does not divide \<open>order - 1\<close>, and to sample \<open>x\<close> and return
  \<open>x ^ ((order - 1) / n)\<close> when it does. The code tests the remainder the other way
  round. In the field of order \<open>7\<close> with the reader yielding \<open>3\<close>: for \<open>n = 2\<close>, which
  divides \<open>6\<close>, it returns \<open>1\<close> without sampling (the sampled root would be
  \<open>3 ^ 3 mod 7 = 6\<close>); for \<open>n = 4\<close>, which does not divide \<open>6\<close>, it samples and returns
  \<open>3 ^ 1 = 3\<close>, which is not a fourth root of unity and not \<open>1\<close>.
\<close>

theorem RootOfUnity_remainder_test_inverted:
  "RootOfUnity 7 [3] 2 False = Inr (Inr (Some 1)) \<and>
   RootOfUnity 7 [3] 4 False = Inr (Inr (Some 3)) \<and>
   Field_Exp 7 3 4 = Some 4"
  by code_simp

section \<open>Elements without an inverse\<close>

text \<open>
  Claim C5, as the code has it. For every order \<open>f \<noteq> 0\<close> and every \<open>x\<close> that shares a
  nontrivial factor with the order, \<open>MultInverse\<close> returns the nil pointer (no error
  value exists in its signature), and \<open>Div(a, x)\<close> does not return: it dereferences
  the nil inverse and panics.
\<close>

theorem MultInverse_nil_Div_panics:
  "f \<noteq> 0 \<Longrightarrow> gcd x f \<noteq> 1 \<Longrightarrow>
   Field_MultInverse f x = Inr None \<and> Field_Div f a x = Inl NilDereference"
  by (simp add: Field_Div_def Field_MultInverse_def bigModInverse_def modinv_def)

text \<open>The theorem at order \<open>100\<close> and \<open>x = 4\<close>.\<close>

theorem MultInverse_nil_Div_panics_witness:
  "(100 :: int) \<noteq> 0 \<and> gcd (4 :: int) 100 \<noteq> 1 \<and>
   Field_MultInverse 100 4 = Inr None \<and> Field_Div 100 3 4 = Inl NilDereference"
  using MultInverse_nil_Div_panics [of 100 4 3] by simp

text \<open>
  Claim C5 as stated fails at \<open>x = 0\<close> in the field of order \<open>7\<close>: \<open>Div(3, 0)\<close> does not
  hand an error to its caller, it panics.
\<close>

theorem Field_Div_by_zero_panics:
  "Field_MultInverse 7 0 = Inr None \<and> Field_Div 7 3 0 = Inl NilDereference"
  by code_simp

section \<open>Division by a divisor that reduces to zero\<close>

text \<open>
  Claim C6, as the code has it. Let the order have absolute value above \<open>1\<close>, let the
  dividend \<open>p\<close> have no slot beyond its degree, and let the divisor be nonempty with
  every coefficient a multiple of the order, of degree at most that of \<open>p\<close>. Then
  \<open>Div\<close> returns no quotient and reports no error value: the first pass through its
  loop divides by a leading coefficient without an inverse and panics on the nil
  pointer.
\<close>

theorem Div_zero_divisor_panics:
  assumes f: "1 < \<bar>f\<bar>"
    and p: "length p \<le> Degree p + 1"
    and d: "divisor \<noteq> []" "\<forall>c\<in>set divisor. f dvd c"
    and deg: "Degree divisor \<le> Degree p"
  shows "Div p divisor f = Some (Inl NilDereference)"
proof -
  define n where "n = (if p = [] then [0] else p)"
  have clone: "Clone p = Inr n" using p by (simp add: Clone_ok n_def)
  have n: "Degree n = Degree p" "n \<noteq> []" by (auto simp: n_def)
  have lead: "f dvd divisor ! Degree divisor"
    using d Degree_lt_length [of divisor] by simp
  then have "gcd (divisor ! Degree divisor) f = \<bar>f\<bar>"
    by (simp add: gcd_proj2_iff)
  then have g: "gcd (divisor ! Degree divisor) f \<noteq> 1" using f by simp
  have f0: "f \<noteq> 0" using f by auto
  have body: "Div_body p divisor f n quot = Inl NilDereference" for quot
    using n d Degree_lt_length [of n] Degree_lt_length [of divisor] Field_Div_nil [OF f0 g]
    by (simp add: Div_body_def Let_def index_def)
  have "int (Degree n) - int (Degree divisor) = int (Degree n - Degree divisor)"
    using deg n by simp
  then show ?thesis
    using clone deg n Div_loop_panic [OF _ body]
    by (simp add: Div_def del: of_nat_diff)
qed

text \<open>The theorem at the dividend \<open>1 + 2 v\<close> and the divisor \<open>0 + 7 v\<close>, order \<open>7\<close>.\<close>

theorem Div_zero_divisor_panics_witness:
  "1 < \<bar>7 :: int\<bar> \<and> length [1, 2 :: int] \<le> Degree [1, 2] + 1 \<and> [0, 7 :: int] \<noteq> [] \<and>
   (7 :: int) dvd 0 \<and> (7 :: int) dvd 7 \<and> Degree [0, 7] \<le> Degree [1, 2] \<and>
   Div [1, 2] [0, 7] 7 = Some (Inl NilDereference)"
  using Div_zero_divisor_panics [of 7 "[1, 2]" "[0, 7]"]
  by (simp add: Degree_def)

text \<open>
  Claim C6 as stated fails at the dividend \<open>3\<close> and the zero polynomial as divisor,
  order \<open>7\<close>: the call panics instead of reporting a division by zero.
\<close>

theorem Div_by_ZeroPolynomial_panics:
  "Div [3] ZeroPolynomial 7 = Some (Inl NilDereference)"
  by code_simp

section \<open>Operands with slots beyond their degree\<close>

text \<open>
  Claim C9. \<open>Add\<close> is to return the coefficient-wise sum for every pair of operands,
  slots beyond the degree included. It sizes its result by the degrees and then
  writes every slot of each operand. In the field of order \<open>7\<close> the sum of \<open>1 + v\<close> and
  \<open>6 v\<close> is returned as \<open>[1, 0]\<close>, with one slot beyond its degree, and adding the
  constant \<open>1\<close> to that result panics with an index out of range.
\<close>

theorem Add_slot_beyond_degree_panics:
  "Add [1, 1] [0, 6] 7 = Inr [1, 0] \<and> Add [1, 0] [1] 7 = Inl IndexOutOfRange"
  by code_simp

section \<open>Quotient and remainder\<close>

text \<open>
  Claim C1, as the code has it. Let the order be nonzero, let \<open>p\<close> have no slot beyond
  its degree and coefficients in \<open>[0, |f|)\<close>, and let the divisor \<open>d\<close> have no slot
  beyond its degree and a leading coefficient that is invertible modulo the order, with
  \<open>Degree d \<le> Degree p\<close>. Then \<open>Div\<close> returns a pair \<open>(q, r)\<close>; \<open>Mul q d\<close> and then
  \<open>Add\<close> of the remainder return \<open>p\<close>; and \<open>Degree r < Degree d\<close> or every
  coefficient of \<open>r\<close> is zero.
\<close>

theorem Div_quotient_remainder:
  assumes f: "f \<noteq> 0"
    and p: "length p = Suc (Degree p)" "\<forall>c\<in>set p. 0 \<le> c \<and> c < \<bar>f\<bar>"
    and d: "length d = Suc (Degree d)" "coprime (d ! Degree d) f" "Degree d \<le> Degree p"
  shows "\<exists>q r. Div p d f = Some (Inr (q, r)) \<and>
           (\<exists>qd. Mul q d f = Inr qd \<and> Add qd r f = Inr p) \<and>
           (Degree r < Degree d \<or> (\<forall>c\<in>set r. c = 0))"
proof -
  define M where "M = \<bar>f\<bar>"
  from Div_canonical [OF f p d]
  obtain q r where div: "Div p d f = Some (Inr (q, r))" and qr: "div_rel p d f r q"
      "0 < Degree p \<longrightarrow> q ! (Degree p - Degree d) \<noteq> 0"
      "Degree r < Degree d \<or> (\<forall>k<length p. r ! k = 0)"
    by auto
  have len: "length r = Suc (Degree p)" "length q = Suc (Degree p - Degree d)"
    and rel: "\<And>k. k \<le> Degree p \<Longrightarrow> r ! k mod M = (p ! k - conv q d k) mod M"
    and qred: "\<And>j. j \<le> Degree p - Degree d \<Longrightarrow> 0 \<le> q ! j \<and> q ! j < M"
    using qr(1) p(1) by (auto simp: div_rel_def M_def less_Suc_eq_le)
  have degq: "Degree q = Degree p - Degree d"
    using len(2) qr(2) by (intro Degree_eqI) auto
  define z where "z = map (\<lambda>k. conv q d k mod M) [0..<Suc (Degree p)]"
  have mul: "Mul q d f = Inr z"
    using Mul_ok [OF f _ d(1), of q] len(2) degq d(3) by (simp add: z_def M_def del: upt_Suc)
  have ztop: "Degree p = 0 \<or> z ! Degree p \<noteq> 0"
  proof (cases "Degree p = 0")
    case False
    then have nz: "q ! (Degree p - Degree d) \<noteq> 0" using qr(2) by simp
    have "conv q d ((Degree p - Degree d) + Degree d) = q ! (Degree p - Degree d) * d ! Degree d"
      using len(2) d(1) by (intro conv_top)
    then have "z ! Degree p = (d ! Degree d * q ! (Degree p - Degree d)) mod M"
      using d(3) by (simp add: z_def mult.commute del: upt_Suc)
    moreover have "(d ! Degree d * q ! (Degree p - Degree d)) mod \<bar>f\<bar> \<noteq> 0"
      using d(2) nz qred [of "Degree p - Degree d"]
      by (intro coprime_lead_product) (auto simp: M_def)
    ultimately show ?thesis by (simp add: M_def)
  qed simp
  have degz: "Degree z = Degree p"
    using ztop by (intro Degree_eqI) (simp_all add: z_def del: upt_Suc)
  have "Degree r \<le> Degree p" using Degree_le_length [of r] len(1) by simp
  then have mx: "max (Degree z) (Degree r) = Degree p" using degz by simp
  have "Add z r f =
    Inr (map (\<lambda>k. (coeff z k + coeff r k) mod \<bar>f\<bar>) [0..<Suc (max (Degree z) (Degree r))])"
    using f len(1) by (intro Add_ok) (simp_all add: mx, simp add: z_def)
  also have "map (\<lambda>k. (coeff z k + coeff r k) mod \<bar>f\<bar>) [0..<Suc (max (Degree z) (Degree r))] = p"
    unfolding mx
  proof (rule nth_equalityI)
    show "length (map (\<lambda>k. (coeff z k + coeff r k) mod \<bar>f\<bar>) [0..<Suc (Degree p)]) = length p"
      using p(1) by simp
  next
    fix k assume "k < length (map (\<lambda>k. (coeff z k + coeff r k) mod \<bar>f\<bar>) [0..<Suc (Degree p)])"
    then have k: "k \<le> Degree p" by simp
    have "(coeff z k + coeff r k) mod M = (conv q d k mod M + r ! k) mod M"
      using k len(1) by (simp add: coeff_def z_def del: upt_Suc)
    also have "\<dots> = (conv q d k + r ! k mod M) mod M"
      by (simp add: mod_add_eq mod_add_left_eq mod_add_right_eq)
    also have "\<dots> = (conv q d k + (p ! k - conv q d k) mod M) mod M"
      using rel [OF k] by simp
    also have "\<dots> = p ! k mod M"
      by (simp add: mod_add_right_eq)
    also have "\<dots> = p ! k"
      using p k by (simp add: M_def less_Suc_eq_le [symmetric])
    finally show "map (\<lambda>k. (coeff z k + coeff r k) mod \<bar>f\<bar>) [0..<Suc (Degree p)] ! k = p ! k"
      using k by (simp add: M_def del: upt_Suc)
  qed
  finally have add: "Add z r f = Inr p" .
  have "Degree r < Degree d \<or> (\<forall>c\<in>set r. c = 0)"
    using qr(3) len(1) p(1) by (auto simp: in_set_conv_nth)
  then show ?thesis using div mul add by auto
qed

text \<open>The theorem at \<open>(6 + 4 v + 5 v\<^sup>2) / (1 + 2 v)\<close> in the field of order \<open>7\<close>.\<close>

theorem Div_quotient_remainder_witness:
  "(7 :: int) \<noteq> 0 \<and> length [6, 4, 5 :: int] = Suc (Degree [6, 4, 5]) \<and>
   list_all (\<lambda>c. 0 \<le> c \<and> c < \<bar>7 :: int\<bar>) [6, 4, 5] \<and>
   length [1, 2 :: int] = Suc (Degree [1, 2]) \<and> coprime ([1, 2] ! Degree [1, 2]) (7 :: int) \<and>
   Degree [1, 2] \<le> Degree [6, 4, 5] \<and>
   (\<exists>q r. Div [6, 4, 5] [1, 2] 7 = Some (Inr (q, r)) \<and>
           (\<exists>qd. Mul q [1, 2] 7 = Inr qd \<and> Add qd r 7 = Inr [6, 4, 5]) \<and>
           (Degree r < Degree [1, 2] \<or> (\<forall>c\<in>set r. c = 0)))"
proof -
  have deg: "Degree [6, 4, 5] = 2" "Degree [1, 2] = 1" by (simp_all add: Degree_def)
  have "coprime (2 :: int) 7" by code_simp
  then have cop: "coprime ([1, 2] ! Degree [1, 2]) (7 :: int)"
    unfolding deg by simp
  show ?thesis
    using Div_quotient_remainder [of 7 "[6, 4, 5]" "[1, 2]"] cop by (simp add: deg)
qed

text \<open>
  Claim C1 as stated fails in the field of order \<open>7\<close> for the dividend \<open>1 + v\<close> and the
  zero polynomial as divisor, whose degree is \<open>0\<close> by the convention of \<open>Degree\<close>: no
  pair is returned, the call panics.
\<close>

theorem Div_degree_zero_divisor_no_pair:
  "Degree [0] \<le> Degree [1, 1] \<and> Div [1, 1] [0] 7 = Some (Inl NilDereference)"
  by code_simp

section \<open>The degree of a product\<close>

text \<open>
  Claim C7, as the code has it. Let the order be nonzero, let \<open>p\<close> and \<open>q\<close> have no
  slot beyond their degree, and let the product of their leading coefficients not be a
  multiple of the order (over a prime order: both leading coefficients are nonzero
  modulo the order). Then \<open>Mul\<close> returns a polynomial of degree
  \<open>Degree p + Degree q\<close>.
\<close>

theorem Degree_Mul:
  assumes "f \<noteq> 0" "length p = Suc (Degree p)" "length q = Suc (Degree q)"
    and "\<not> f dvd p ! Degree p * q ! Degree q"
  shows "\<exists>r. Mul p q f = Inr r \<and> Degree r = Degree p + Degree q"
proof -
  let ?r = "map (\<lambda>k. conv p q k mod \<bar>f\<bar>) [0..<Suc (Degree p + Degree q)]"
  have "?r ! (Degree p + Degree q) = (p ! Degree p * q ! Degree q) mod \<bar>f\<bar>"
    using conv_top [OF assms(2,3)] by (simp del: upt_Suc)
  moreover have "(p ! Degree p * q ! Degree q) mod \<bar>f\<bar> \<noteq> 0"
    using assms(4) by (simp add: dvd_eq_mod_eq_0 [symmetric] del: dvd_abs_iff) 
  ultimately have "Degree ?r = Degree p + Degree q"
    by (intro Degree_eqI) (simp_all del: upt_Suc)
  then show ?thesis using Mul_ok [OF assms(1-3)] by simp
qed

text \<open>The theorem at \<open>(1 + v) (6 + v)\<close> in the field of order \<open>7\<close>.\<close>

theorem Degree_Mul_witness:
  "(7 :: int) \<noteq> 0 \<and> length [1, 1 :: int] = Suc (Degree [1, 1]) \<and>
   length [6, 1 :: int] = Suc (Degree [6, 1]) \<and>
   \<not> (7 :: int) dvd [1, 1] ! Degree [1, 1] * [6, 1] ! Degree [6, 1] \<and>
   (\<exists>r. Mul [1, 1] [6, 1] 7 = Inr r \<and> Degree r = Degree [1, 1] + Degree [6, 1])"
proof -
  have deg: "Degree [1, 1] = 1" "Degree [6, 1] = 1" by (simp_all add: Degree_def)
  show ?thesis
    using Degree_Mul [of 7 "[1, 1]" "[6, 1]"] by (simp add: deg)
qed

text \<open>
  Claim C7 as stated fails for the odd order \<open>9\<close>: \<open>3 v\<close> is not the zero polynomial,
  and its square has degree \<open>0\<close>. (The repository's own tests use fields of the orders
  \<open>10\<close> and \<open>100\<close>.)
\<close>

theorem Degree_Mul_order_9:
  "Mul [0, 3] [0, 3] 9 = Inr [0, 0, 0] \<and> Degree [0, 0, 0] = 0 \<and>
   Degree [0, 3] + Degree [0, 3] = 2"
  by code_simp

section \<open>Evaluation in the exponent\<close>

text \<open>
  Claim C4, as the code has it. Let the order be nonzero and the polynomial \<open>p\<close> have
  at least one slot, and let the group satisfy the laws of its interface: adding two
  multiples of the base point adds the scalars, a scalar multiple of a multiple of the
  base point multiplies the scalars, and scalars act modulo the order. Then
  \<open>ComputePowers\<close> returns the powers of \<open>x\<close>, \<open>Evaluate\<close> returns a value \<open>y\<close>, and
  \<open>EvaluateOnPowers\<close> on the encoded powers returns the base-point multiple of \<open>y\<close>.
\<close>

theorem EvaluateOnPowers_encodes_Evaluate:
  assumes f: "f \<noteq> 0" and p: "p \<noteq> []"
    and add_sbase: "\<And>a b. add (sbase a) (sbase b) = sbase (a + b)"
    and smul_sbase: "\<And>a k. smul (sbase a) k = sbase (a * k)"
    and sbase_mod: "\<And>a. sbase (a mod \<bar>f\<bar>) = sbase a"
  shows "\<exists>pw y. ComputePowers x (int (length p)) f = Inr pw \<and>
           Evaluate p x f = Inr y \<and>
           EvaluateOnPowers add smul sbase p (map sbase pw) = Inr (sbase y)"
proof -
  let ?n = "length p"
  obtain pw where pw: "ComputePowers x (int ?n) f = Inr pw" "length pw = ?n"
      "\<forall>t<?n. pw ! t mod \<bar>f\<bar> = x ^ t mod \<bar>f\<bar>"
    using ComputePowers_ok [OF f, of ?n x] p by auto
  let ?S = "\<Sum>t<?n. pw ! t * p ! t"
  let ?E = "\<Sum>t<?n. p ! t * x ^ t"
  have "EvaluateOnPowers add smul sbase p (map sbase pw) = Inr (sbase (0 + ?S))"
    using pw(2) EvaluateOnPowers_loop_ok [of add sbase smul p 0 pw 0, OF add_sbase smul_sbase]
    by (simp add: EvaluateOnPowers_def)
  moreover have "?S mod \<bar>f\<bar> = ?E mod \<bar>f\<bar>"
  proof -
    have "?S mod \<bar>f\<bar> = (\<Sum>t<?n. (pw ! t * p ! t) mod \<bar>f\<bar>) mod \<bar>f\<bar>"
      by (simp add: mod_sum_eq)
    also have "(\<Sum>t<?n. (pw ! t * p ! t) mod \<bar>f\<bar>) = (\<Sum>t<?n. (p ! t * x ^ t) mod \<bar>f\<bar>)"
    proof (rule sum.cong)
      fix t assume "t \<in> {..<?n}"
      then have "pw ! t mod \<bar>f\<bar> = x ^ t mod \<bar>f\<bar>" using pw(3) by simp
      then have "(pw ! t * p ! t) mod \<bar>f\<bar> = (x ^ t * p ! t) mod \<bar>f\<bar>"
        by (rule mod_mult_cong) (rule refl)
      then show "(pw ! t * p ! t) mod \<bar>f\<bar> = (p ! t * x ^ t) mod \<bar>f\<bar>"
        by (simp add: mult.commute)
    qed simp
    also have "(\<Sum>t<?n. (p ! t * x ^ t) mod \<bar>f\<bar>) mod \<bar>f\<bar> = ?E mod \<bar>f\<bar>"
      by (simp add: mod_sum_eq)
    finally show ?thesis .
  qed
  then have "sbase ?S = sbase (?E mod \<bar>f\<bar>)"
    using sbase_mod [of ?S] by simp
  ultimately show ?thesis
    using pw(1) Evaluate_ok [OF f p, of x] by simp
qed

text \<open>
  The theorem for \<open>1 + 2 v + v\<^sup>2\<close> at \<open>x = 3\<close>, in the additive group of the integers
  modulo \<open>7\<close> with base point \<open>1\<close>: the powers are \<open>1, 3, 2\<close> and both sides are \<open>2\<close>.
\<close>

theorem EvaluateOnPowers_encodes_Evaluate_witness:
  "(7 :: int) \<noteq> 0 \<and> [1, 2, 1 :: int] \<noteq> [] \<and>
   ComputePowers 3 (int (length [1, 2, 1 :: int])) 7 = Inr [1, 3, 2] \<and>
   Evaluate [1, 2, 1] 3 7 = Inr 2 \<and>
   EvaluateOnPowers (\<lambda>a b. (a + b) mod 7) (\<lambda>a k. (a * k) mod 7) (\<lambda>a. a mod 7)
      [1, 2, 1] (map (\<lambda>a. a mod 7) [1, 3, 2]) = Inr (2 :: int)"
proof -
  have pw: "ComputePowers 3 (int (length [1, 2, 1 :: int])) 7 = Inr [1, 3, 2]"
    by code_simp
  have y: "Evaluate [1, 2, 1] 3 7 = Inr 2"
    by code_simp
  show ?thesis
    using EvaluateOnPowers_encodes_Evaluate [of 7 "[1, 2, 1]"
      "\<lambda>a b. (a + b) mod 7" "\<lambda>a. a mod 7" "\<lambda>a k. (a * k) mod 7" 3]
    unfolding pw y by (simp add: mod_simps)
qed

text \<open>
  Claim C4 as stated fails for the polynomial without slots, which \<open>Div\<close> returns as
  the quotient of \<open>1\<close> by \<open>v\<close>: in the field of order \<open>7\<close>, \<open>ComputePowers\<close> returns no
  powers and \<open>EvaluateOnPowers\<close> returns the identity of the group, but \<open>Evaluate\<close>
  reads coefficient \<open>0\<close> and panics, so there is no value to encode.
\<close>

theorem Evaluate_no_slot_panics:
  "Div [1] [0, 1] 7 = Some (Inr ([], [1])) \<and>
   ComputePowers 3 (int (length ([] :: int list))) 7 = Inr [] \<and>
   Evaluate [] 3 7 = Inl IndexOutOfRange \<and>
   EvaluateOnPowers (\<lambda>a b. (a + b) mod 7) (\<lambda>a k. (a * k) mod 7) (\<lambda>a. a mod 7)
      [] (map (\<lambda>a. a mod 7) []) = Inr (0 :: int)"
  by code_simp

section \<open>Operands with slots beyond their degree, in \<open>Evaluate\<close> and \<open>getQuotient\<close>\<close>

text \<open>
  Claim C8. \<open>Evaluate\<close> is to commute with \<open>Add\<close> and \<open>Mul\<close> for all polynomials. In
  the field of order \<open>7\<close> the sum of \<open>2 + v\<close> and \<open>6 v\<close> is returned as \<open>[2, 0]\<close>;
  this polynomial and the constant \<open>3\<close> evaluate to \<open>2\<close> and \<open>3\<close> at \<open>x = 3\<close>, but
  both their sum and their product panic with an index out of range, so neither
  \<open>Evaluate (Add \<dots>)\<close> nor \<open>Evaluate (Mul \<dots>)\<close> has a value. For operands without
  slots beyond their degree both equations hold: lemmas \<open>Evaluate_Add\<close> and
  \<open>Evaluate_Mul\<close>.
\<close>

theorem Evaluate_of_sum_and_product_panics:
  "Add [2, 1] [0, 6] 7 = Inr [2, 0] \<and>
   Evaluate [2, 0] 3 7 = Inr 2 \<and> Evaluate [3] 3 7 = Inr 3 \<and>
   Field_Add 7 2 3 = Inr 5 \<and> Field_Mul 7 2 3 = Inr 6 \<and>
   Add [2, 0] [3] 7 = Inl IndexOutOfRange \<and> Mul [2, 0] [3] 7 = Inl IndexOutOfRange"
  by code_simp

text \<open>
  Claim C2. With \<open>y = Evaluate(p, z)\<close>, \<open>getQuotient(p, z, y, f)\<close> is to return the
  quotient without error for every polynomial. In the field of order \<open>7\<close>, for the
  constant polynomial stored as \<open>[1, 0]\<close> and \<open>z = 5\<close>, \<open>Evaluate\<close> returns \<open>1\<close> and
  \<open>getQuotient\<close> panics in its first \<open>Add\<close>; stored as \<open>[1]\<close> the same polynomial is
  handled. For polynomials without slots beyond their degree and with reduced
  coefficients the claim holds: lemmas \<open>getQuotient_ok\<close> and
  \<open>getQuotient_error_iff\<close>.
\<close>

theorem getQuotient_slot_beyond_degree_panics:
  "Evaluate [1, 0] 5 7 = Inr 1 \<and> getQuotient [1, 0] 5 1 7 = Some (Inl IndexOutOfRange) \<and>
   Evaluate [1] 5 7 = Inr 1 \<and> getQuotient [1] 5 1 7 = Some (Inr (Inr []))"
  by code_simp

section \<open>The quotient allocation of \<open>Div\<close>\<close>

text \<open>
  Claim C10. Whenever the divisor's degree exceeds the dividend's by two or more,
  \<open>Div\<close> returns no pair: it panics, and when the dividend has no slot beyond its
  degree (so that the clone succeeds) the panic is the negative length of the quotient
  allocation. Hence \<open>Div\<close> returns a pair only if
  \<open>Degree divisor \<le> Degree p + 1\<close>.
\<close>

theorem Div_negative_length:
  "(Degree p + 2 \<le> Degree divisor \<longrightarrow>
      (\<exists>e. Div p divisor f = Some (Inl e)) \<and>
      (length p \<le> Degree p + 1 \<longrightarrow> Div p divisor f = Some (Inl NegativeLen))) \<and>
   (Div p divisor f = Some (Inr (q, r)) \<longrightarrow> Degree divisor \<le> Degree p + 1)"
proof -
  have neg: "Degree p + 2 \<le> Degree divisor \<Longrightarrow> Degree n = Degree p \<Longrightarrow>
      NewZeroPolynomial (int (Degree n) - int (Degree divisor)) = Inl NegativeLen" for n
    by (simp add: NewZeroPolynomial_def)
  show ?thesis
    using Clone_cases [of p]
  proof
    assume "Clone p = Inl IndexOutOfRange \<and> Suc (Degree p) < length p"
    then show ?thesis by (simp add: Div_def)
  next
    assume "\<exists>n. Clone p = Inr n \<and> Degree n = Degree p \<and> length p \<le> Suc (Degree p) \<and> n \<noteq> []"
    then obtain n where n: "Clone p = Inr n" "Degree n = Degree p" by blast
    show ?thesis
    proof (cases "Degree p + 2 \<le> Degree divisor")
      case True
      then show ?thesis using n neg [of n] by (simp add: Div_def)
    next
      case False
      then show ?thesis by simp
    qed
  qed
qed

text \<open>The theorem at the dividend \<open>1\<close> and the divisor \<open>v ^ 2\<close>, order \<open>7\<close>.\<close>

theorem Div_negative_length_witness:
  "Degree [1] + 2 \<le> Degree [0, 0, 1] \<and> length [1 :: int] \<le> Degree [1] + 1 \<and>
   Div [1] [0, 0, 1] 7 = Some (Inl NegativeLen)"
  using Div_negative_length [of "[1]" "[0, 0, 1]" 7]
  by (simp add: Degree_def)

end
